theory Spec2Isabelle
  imports Complex_Main "HOL-Library.Sublist"
begin

section \<open>Data model\<close>

text \<open>
  The offline-first synchronisation engine of the point-of-sale terminal
  (\<^verbatim>\<open>src/lib/sync.ts\<close>, class \<^verbatim>\<open>SyncService\<close>) is embedded as state-passing functions
  over a record of everything the class touches: its own fields, the Local Store
  (\<^verbatim>\<open>./db\<close>), the Remote Store (\<^verbatim>\<open>./supabase\<close>, with the tables of the SQL schema), the
  answers of the network and a trace of what the code logs and requests.
  JavaScript numbers that the engine only carries around (prices, totals, quantities)
  are rationals; identifiers and dates are strings.
\<close>

record Product =
  pid :: string
  pname :: string
  description :: string
  pprice :: rat
  stock :: int
  category :: string
  image :: string

text \<open>An entry of \<^verbatim>\<open>transaction.items\<close>; \<open>item_id\<close> is the product's id (\<^verbatim>\<open>item.id\<close>).\<close>

record TransactionItem =
  item_id :: string
  item_name :: string
  item_price :: rat
  item_quantity :: rat

record Transaction =
  tid :: string
  date :: string
  subtotal :: rat
  tax :: rat
  total :: rat
  status :: string
  items :: "TransactionItem list"

text \<open>The persisted singleton record read by \<^verbatim>\<open>db.getSyncState()\<close>; \<open>isOnline_stored\<close> is
  its field \<^verbatim>\<open>isOnline\<close>, \<open>lastSync\<close> holds the clock reading of the last stamp.\<close>

record SyncState =
  lastSync :: "nat option"
  pendingTransactions :: "string list"
  isOnline_stored :: bool

record LocalStore =
  products :: "Product list"
  transactions :: "Transaction list"
  syncState :: SyncState

text \<open>The object \<^verbatim>\<open>supabaseTransaction\<close> sent to table \<^verbatim>\<open>transactions\<close> (primary key \<open>row_id\<close>).\<close>

record TransactionRow =
  row_id :: string
  user_id :: string
  row_date :: string
  row_subtotal :: rat
  row_tax :: rat
  row_total :: rat
  row_status :: string

text \<open>The objects \<^verbatim>\<open>transactionItems\<close> sent to table \<^verbatim>\<open>transaction_items\<close>: they carry no
  \<^verbatim>\<open>id\<close>, the column that is the table's primary key.\<close>

record ItemPayload =
  transaction_id :: string
  product_id :: string
  name :: string
  price :: rat
  quantity :: rat

text \<open>A stored row of \<^verbatim>\<open>transaction_items\<close>: the payload under the key the table generated
  (\<^verbatim>\<open>id UUID PRIMARY KEY DEFAULT gen_random_uuid()\<close>; the n-th generated key is \<open>n\<close>).\<close>

record ItemRow =
  item_row_id :: nat
  payload :: ItemPayload

record RemoteStore =
  remote_products :: "Product list"
  remote_transactions :: "TransactionRow list"
  remote_items :: "ItemRow list"
  next_uuid :: nat

text \<open>The requests the engine sends; the two writes name the transaction they are for.\<close>

datatype request =
    GetUser
  | SelectProducts
  | UpsertTransaction string
  | UpsertItems string

text \<open>What a request to the Remote Store comes back with: \<open>Applied\<close> (done, no error),
  \<open>Refused\<close> (not done, error) or \<open>Lost\<close> (done on the server, but the caller sees an
  error: the ambiguous failure). The network is a counter of the requests issued so far
  and the answer a request gets, given its place in that count and what it asks; every
  behaviour of the network and of the server's own checks is one such assignment.\<close>

datatype outcome = Applied | Refused | Lost

record Net =
  requests :: nat
  user_at :: "nat \<Rightarrow> string option"
  outcome_at :: "nat \<Rightarrow> request \<Rightarrow> outcome"

text \<open>The fields of \<^verbatim>\<open>SyncService\<close> (\<^verbatim>\<open>dbState\<close>, written by \<^verbatim>\<open>init\<close> and read nowhere, is
  left out).\<close>

record SyncService =
  isOnline :: bool
  isSyncing :: bool
  maxRetries :: nat
  retryDelay :: nat

text \<open>What the code does that an observer can see, in order: the requests it issues,
  the timers it waits for and the lines it logs.\<close>

datatype event =
    Request request
  | Sleep nat
  | LogSkippingSync
  | LogSyncCompleted
  | LogSyncFailed
  | LogAttempting string nat
  | LogSynced string
  | LogRetrying string nat
  | LogFailedAfter string nat
  | LogAddedToPending string
  | LogSavedOffline string

datatype error =
    NoAuthenticatedUser
  | TransactionError
  | ItemsError
  | FetchProductsFailed
  | OfflineSavedLocally
  | CannotSyncOffline
  | SyncInProgress

datatype SyncStatus = synced | pending | error

record World =
  service :: SyncService
  db :: LocalStore
  supabase :: RemoteStore
  net :: Net
  trace :: "event list"
  clock :: nat

definition emit :: "event \<Rightarrow> World \<Rightarrow> World" where
  "emit e w = w\<lparr>trace := trace w @ [e]\<rparr>"

text \<open>\<^verbatim>\<open>await new Promise(resolve => setTimeout(resolve, ms))\<close>.\<close>

definition sleep :: "nat \<Rightarrow> World \<Rightarrow> World" where
  "sleep ms w = (emit (Sleep ms) w)\<lparr>clock := clock w + ms\<rparr>"

section \<open>Local Store\<close>

text \<open>An object store keyed by a field of its records: \<open>put\<close> overwrites the record with
  the same key or adds the record.\<close>

fun put :: "('a \<Rightarrow> string) \<Rightarrow> 'a \<Rightarrow> 'a list \<Rightarrow> 'a list" where
  "put key x [] = [x]"
| "put key x (y # ys) = (if key y = key x then x # ys else y # put key x ys)"

text \<open>Modelled from the spec: \<^verbatim>\<open>db.getSyncState\<close> of the absent \<^verbatim>\<open>src/lib/db.ts\<close>; reads the
  singleton SyncState record.\<close>

definition db_getSyncState :: "LocalStore \<Rightarrow> SyncState" where
  "db_getSyncState d = syncState d"

text \<open>Modelled from the spec: \<^verbatim>\<open>db.updateSyncState\<close> of the absent \<^verbatim>\<open>src/lib/db.ts\<close>; writes
  the singleton SyncState record.\<close>

definition db_updateSyncState :: "SyncState \<Rightarrow> LocalStore \<Rightarrow> LocalStore" where
  "db_updateSyncState st d = d\<lparr>syncState := st\<rparr>"

text \<open>Modelled from the spec: \<^verbatim>\<open>db.addPendingTransaction\<close> of the absent
  \<^verbatim>\<open>src/lib/db.ts\<close>; the pending ids are a set, kept in insertion order.\<close>

definition db_addPendingTransaction :: "string \<Rightarrow> LocalStore \<Rightarrow> LocalStore" where
  "db_addPendingTransaction i d =
     (if i \<in> set (pendingTransactions (syncState d)) then d
      else d\<lparr>syncState := (syncState d)
             \<lparr>pendingTransactions := pendingTransactions (syncState d) @ [i]\<rparr>\<rparr>)"

text \<open>Modelled from the spec: \<^verbatim>\<open>db.removePendingTransaction\<close> of the absent
  \<^verbatim>\<open>src/lib/db.ts\<close>; takes the id out of the pending set.\<close>

definition db_removePendingTransaction :: "string \<Rightarrow> LocalStore \<Rightarrow> LocalStore" where
  "db_removePendingTransaction i d =
     d\<lparr>syncState := (syncState d)
        \<lparr>pendingTransactions := filter (\<lambda>j. j \<noteq> i) (pendingTransactions (syncState d))\<rparr>\<rparr>"

text \<open>Modelled from the spec: \<^verbatim>\<open>db.saveTransaction\<close> of the absent \<^verbatim>\<open>src/lib/db.ts\<close>; stores
  the transaction, with its items, under its id.\<close>

definition db_saveTransaction :: "Transaction \<Rightarrow> LocalStore \<Rightarrow> LocalStore" where
  "db_saveTransaction t d = d\<lparr>transactions := put tid t (transactions d)\<rparr>"

text \<open>Modelled from the spec: \<^verbatim>\<open>db.getTransaction\<close> of the absent \<^verbatim>\<open>src/lib/db.ts\<close>; the
  stored transaction with that id, if any.\<close>

definition db_getTransaction :: "string \<Rightarrow> LocalStore \<Rightarrow> Transaction option" where
  "db_getTransaction i d = find (\<lambda>t. tid t = i) (transactions d)"

text \<open>Modelled from the spec: \<^verbatim>\<open>db.clearProducts\<close> of the absent \<^verbatim>\<open>src/lib/db.ts\<close>; empties
  the product cache.\<close>

definition db_clearProducts :: "LocalStore \<Rightarrow> LocalStore" where
  "db_clearProducts d = d\<lparr>products := []\<rparr>"

text \<open>Modelled from the spec: \<^verbatim>\<open>db.saveProduct\<close> of the absent \<^verbatim>\<open>src/lib/db.ts\<close>; stores one
  product under its id.\<close>

definition db_saveProduct :: "Product \<Rightarrow> LocalStore \<Rightarrow> LocalStore" where
  "db_saveProduct p d = d\<lparr>products := put pid p (products d)\<rparr>"

text \<open>Modelled from the spec: \<^verbatim>\<open>db.saveProducts\<close> of the absent \<^verbatim>\<open>src/lib/db.ts\<close>; the bulk
  save: every given product is stored under its id, replacing a cached record of the
  same id.\<close>

definition db_saveProducts :: "Product list \<Rightarrow> LocalStore \<Rightarrow> LocalStore" where
  "db_saveProducts ps d = fold db_saveProduct ps d"

section \<open>Remote Store\<close>

text \<open>The tables are those of the SQL schema of the repository; the engine reaches them
  through the Supabase client, whose \<^verbatim>\<open>upsert\<close> is an insert that resolves a conflict on the
  table's primary key by overwriting the stored row. Whether the server accepts a request
  (row-level policies, foreign keys, connectivity) is the network's answer. The trigger
  that lowers a product's stock for each inserted item row is left out: the engine never
  reads the remote stock back except as part of a fetched product.

  One request: the answer is the one the network holds for the current request index,
  and the counter moves on.\<close>

definition answer :: "request \<Rightarrow> World \<Rightarrow> outcome" where
  "answer q w = outcome_at (net w) (requests (net w)) q"

definition tick :: "World \<Rightarrow> World" where
  "tick w = w\<lparr>net := (net w)\<lparr>requests := Suc (requests (net w))\<rparr>\<rparr>"

text \<open>\<^verbatim>\<open>supabase.auth.getUser()\<close>: the current user, if one is signed in.\<close>

definition auth_getUser :: "World \<Rightarrow> string option \<times> World" where
  "auth_getUser w = (user_at (net w) (requests (net w)), tick (emit (Request GetUser) w))"

text \<open>\<^verbatim>\<open>supabase.from('products').select('*')\<close>: the rows, or an error.\<close>

definition select_products :: "World \<Rightarrow> (error + Product list) \<times> World" where
  "select_products w =
     (if answer SelectProducts w = Applied then Inr (remote_products (supabase w))
      else Inl FetchProductsFailed,
      tick (emit (Request SelectProducts) w))"

text \<open>\<^verbatim>\<open>supabase.from('transactions').upsert(row)\<close>: an insert that, on a row with the same
  primary key \<^verbatim>\<open>id\<close>, overwrites it. The result is whether the caller sees an error.\<close>

definition upsert_transaction :: "TransactionRow \<Rightarrow> World \<Rightarrow> bool \<times> World" where
  "upsert_transaction row w =
     (let a = answer (UpsertTransaction (row_id row)) w;
          w1 = tick (emit (Request (UpsertTransaction (row_id row))) w)
      in (a \<noteq> Applied,
          if a = Refused then w1
          else w1\<lparr>supabase := (supabase w1)
                 \<lparr>remote_transactions := put row_id row (remote_transactions (supabase w1))\<rparr>\<rparr>))"

text \<open>Inserting the payloads into \<^verbatim>\<open>transaction_items\<close>: a payload has no \<^verbatim>\<open>id\<close>, so the table
  gives each row a newly generated key (the column default), which conflicts with no
  stored row: for these rows the upsert is a plain insert.\<close>

fun insert_items :: "ItemPayload list \<Rightarrow> RemoteStore \<Rightarrow> RemoteStore" where
  "insert_items [] r = r"
| "insert_items (p # ps) r =
     insert_items ps
       (r\<lparr>remote_items := remote_items r @ [\<lparr>item_row_id = next_uuid r, payload = p\<rparr>],
          next_uuid := Suc (next_uuid r)\<rparr>)"

text \<open>\<^verbatim>\<open>supabase.from('transaction_items').upsert(rows)\<close>, for the rows of transaction
  \<open>i\<close>.\<close>

definition upsert_items :: "string \<Rightarrow> ItemPayload list \<Rightarrow> World \<Rightarrow> bool \<times> World" where
  "upsert_items i rows w =
     (let a = answer (UpsertItems i) w;
          w1 = tick (emit (Request (UpsertItems i)) w)
      in (a \<noteq> Applied,
          if a = Refused then w1
          else w1\<lparr>supabase := insert_items rows (supabase w1)\<rparr>))"

section \<open>Sync engine\<close>

text \<open>The constructor, given \<^verbatim>\<open>navigator.onLine\<close>.\<close>

definition constructor :: "bool \<Rightarrow> SyncService" where
  "constructor online =
     \<lparr>isOnline = online, isSyncing = False, maxRetries = 3, retryDelay = 5000\<rparr>"

definition format_transaction :: "Transaction \<Rightarrow> string \<Rightarrow> TransactionRow" where
  "format_transaction t u =
     \<lparr>row_id = tid t, user_id = u, row_date = date t, row_subtotal = subtotal t,
      row_tax = tax t, row_total = total t, row_status = status t\<rparr>"

definition format_item :: "Transaction \<Rightarrow> TransactionItem \<Rightarrow> ItemPayload" where
  "format_item t item =
     \<lparr>transaction_id = tid t, product_id = item_id item, name = item_name item,
      price = item_price item, quantity = item_quantity item\<rparr>"

text \<open>One delivery of a transaction to the Remote Store: the statements of
  \<^verbatim>\<open>_syncTransactions\<close>, lines 169 to 212, which \<^verbatim>\<open>saveTransaction\<close> repeats word for word in
  lines 250 to 293. \<open>Inl\<close> is the error thrown.\<close>

definition upload :: "Transaction \<Rightarrow> World \<Rightarrow> (error + unit) \<times> World" where
  "upload t w =
     (case auth_getUser w of
        (None, w1) \<Rightarrow> (Inl NoAuthenticatedUser, w1)
      | (Some u, w1) \<Rightarrow>
          (case upsert_transaction (format_transaction t u) w1 of
             (True, w2) \<Rightarrow> (Inl TransactionError, w2)
           | (False, w2) \<Rightarrow>
               (case upsert_items (tid t) (map (format_item t) (items t)) w2 of
                  (True, w3) \<Rightarrow> (Inl ItemsError, w3)
                | (False, w3) \<Rightarrow> (Inr (), w3))))"

text \<open>\<^verbatim>\<open>getTransactionSyncStatus\<close>.\<close>

definition getTransactionSyncStatus :: "string \<Rightarrow> World \<Rightarrow> SyncStatus" where
  "getTransactionSyncStatus transactionId w =
     (let state = db_getSyncState (db w)
      in if transactionId \<in> set (pendingTransactions state) then pending else synced)"

text \<open>\<^verbatim>\<open>saveTransaction\<close> (the spec's persistTransaction).\<close>

definition saveTransaction :: "Transaction \<Rightarrow> World \<Rightarrow> (error + unit) \<times> World" where
  "saveTransaction t w =
     (let w0 = w\<lparr>db := db_saveTransaction t (db w)\<rparr>;
          state = db_getSyncState (db w0)
      in if isOnline_stored state then
           (case upload t w0 of
              (Inr _, w1) \<Rightarrow>
                (let w2 = emit (LogSynced (tid t)) w1
                 in (Inr (),
                     w2\<lparr>db := db_updateSyncState (state\<lparr>lastSync := Some (clock w2)\<rparr>) (db w2)\<rparr>))
            | (Inl e, w1) \<Rightarrow>
                (Inl e,
                 emit (LogAddedToPending (tid t))
                   (w1\<lparr>db := db_addPendingTransaction (tid t) (db w1)\<rparr>)))
         else
           (Inl OfflineSavedLocally,
            emit (LogSavedOffline (tid t))
              (w0\<lparr>db := db_addPendingTransaction (tid t) (db w0)\<rparr>)))"

text \<open>\<^verbatim>\<open>syncProducts\<close>: on an empty answer it returns before touching the cache; with
  \<^verbatim>\<open>forceRefresh\<close> it clears the cache and bulk-saves what it fetched.\<close>

definition syncProducts :: "bool \<Rightarrow> World \<Rightarrow> (error + unit) \<times> World" where
  "syncProducts forceRefresh w =
     (case select_products w of
        (Inl e, w1) \<Rightarrow> (Inl e, w1)
      | (Inr supabaseProducts, w1) \<Rightarrow>
          if supabaseProducts = [] then (Inr (), w1)
          else if forceRefresh then
            (Inr (), w1\<lparr>db := db_saveProducts supabaseProducts (db_clearProducts (db w1))\<rparr>)
          else (Inr (), w1\<lparr>db := fold db_saveProduct supabaseProducts (db w1)\<rparr>))"

text \<open>The \<^verbatim>\<open>while (retries < this.maxRetries)\<close> loop of \<^verbatim>\<open>_syncTransactions\<close> for one
  transaction, entered with \<open>retries\<close> failures so far. A successful delivery removes
  the id from the pending set and leaves the loop; a failure counts, and waits
  \<^verbatim>\<open>retryDelay\<close> unless it was the last one allowed.\<close>

function retry_loop :: "Transaction \<Rightarrow> nat \<Rightarrow> World \<Rightarrow> World" where
  "retry_loop t retries w =
     (if retries < maxRetries (service w) then
        (case upload t (emit (LogAttempting (tid t) (retries + 1)) w) of
           (Inr _, w1) \<Rightarrow>
             emit (LogSynced (tid t)) (w1\<lparr>db := db_removePendingTransaction (tid t) (db w1)\<rparr>)
         | (Inl e, w1) \<Rightarrow>
             (if retries + 1 = maxRetries (service w)
              then retry_loop t (retries + 1)
                     (emit (LogFailedAfter (tid t) (maxRetries (service w))) w1)
              else retry_loop t (retries + 1)
                     (sleep (retryDelay (service w))
                        (emit (LogRetrying (tid t) (retries + 2)) w1))))
      else w)"
  by pat_completeness auto

text \<open>A delivery leaves the engine's own fields alone, so the loop's bound is the same in
  every round.\<close>

lemma upload_service: "service (snd (upload t w)) = service w"
  by (auto simp: upload_def auth_getUser_def upsert_transaction_def upsert_items_def
      tick_def emit_def Let_def split: option.splits prod.splits bool.splits if_splits)

lemma upload_service_eq: "(r, w') = upload t w \<Longrightarrow> service w' = service w"
  using upload_service [of t w] by (cases "upload t w") auto

termination retry_loop
  by (relation "measure (\<lambda>(t, r, w). maxRetries (service w) - r)")
     (auto simp: emit_def sleep_def dest!: upload_service_eq)

text \<open>The \<^verbatim>\<open>for (const transaction of pendingTransactions)\<close> loop over the records loaded
  at the start of the pass; an id without a record is skipped.\<close>

fun drain_each :: "Transaction option list \<Rightarrow> World \<Rightarrow> World" where
  "drain_each [] w = w"
| "drain_each (None # ts) w = drain_each ts w"
| "drain_each (Some t # ts) w = drain_each ts (retry_loop t 0 w)"

text \<open>The private \<^verbatim>\<open>_syncTransactions\<close> (the drain pass).\<close>

definition syncTransactions_private :: "World \<Rightarrow> World" where
  "syncTransactions_private w =
     (let state = db_getSyncState (db w);
          pendingTransactions = map (\<lambda>i. db_getTransaction i (db w)) (pendingTransactions state)
      in drain_each pendingTransactions w)"

definition set_isSyncing :: "bool \<Rightarrow> World \<Rightarrow> World" where
  "set_isSyncing b w = w\<lparr>service := (service w)\<lparr>isSyncing := b\<rparr>\<rparr>"

definition set_isOnline :: "bool \<Rightarrow> World \<Rightarrow> World" where
  "set_isOnline b w = w\<lparr>service := (service w)\<lparr>isOnline := b\<rparr>\<rparr>"

text \<open>The statements shared by \<^verbatim>\<open>sync\<close> (lines 67 to 70) and \<^verbatim>\<open>syncTransactions\<close> (lines 136
  to 139): read the SyncState again, stamp it, write it back.\<close>

definition stamp_lastSync :: "World \<Rightarrow> World" where
  "stamp_lastSync w =
     (let state = db_getSyncState (db w)
      in w\<lparr>db := db_updateSyncState (state\<lparr>lastSync := Some (clock w)\<rparr>) (db w)\<rparr>)"

text \<open>The body of \<^verbatim>\<open>sync\<close> inside \<^verbatim>\<open>try\<close>: what runs between taking the guard and
  releasing it.\<close>

definition sync_body :: "World \<Rightarrow> (error + unit) \<times> World" where
  "sync_body w =
     (case syncProducts True w of
        (Inl e, w1) \<Rightarrow> (Inl e, w1)
      | (Inr _, w1) \<Rightarrow> (Inr (), emit LogSyncCompleted (stamp_lastSync (syncTransactions_private w1))))"

text \<open>\<^verbatim>\<open>sync\<close> (the spec's reconcile): the guard, then the body with \<^verbatim>\<open>catch\<close> swallowing
  its error and \<^verbatim>\<open>finally\<close> releasing the guard.\<close>

definition sync :: "World \<Rightarrow> (error + unit) \<times> World" where
  "sync w =
     (if \<not> isOnline (service w) \<or> isSyncing (service w) then (Inr (), emit LogSkippingSync w)
      else
        (case sync_body (set_isSyncing True w) of
           (Inl e, w1) \<Rightarrow> (Inr (), set_isSyncing False (emit LogSyncFailed w1))
         | (Inr _, w1) \<Rightarrow> (Inr (), set_isSyncing False w1)))"

text \<open>The public \<^verbatim>\<open>syncTransactions\<close> (the spec's drainPending): it throws where \<^verbatim>\<open>sync\<close>
  skips.\<close>

definition syncTransactions :: "World \<Rightarrow> (error + unit) \<times> World" where
  "syncTransactions w =
     (if \<not> isOnline (service w) then (Inl CannotSyncOffline, w)
      else if isSyncing (service w) then (Inl SyncInProgress, w)
      else
        (Inr (),
         set_isSyncing False
           (emit LogSyncCompleted
              (stamp_lastSync (syncTransactions_private (set_isSyncing True w))))))"

text \<open>The two listeners the constructor registers on \<^verbatim>\<open>window\<close>.\<close>

definition on_online :: "World \<Rightarrow> World" where
  "on_online w = snd (sync (set_isOnline True w))"

definition on_offline :: "World \<Rightarrow> World" where
  "on_offline w = set_isOnline False w"

section \<open>Runs of the engine\<close>

text \<open>What can happen to an engine, one at a time: the three public operations, the
  two connectivity events, and a rewrite of the stored online flag (no statement of
  \<^verbatim>\<open>sync.ts\<close> writes that field; whoever does is outside it).\<close>

datatype operation =
    PersistTransaction Transaction
  | Reconcile
  | DrainPending
  | OnlineEvent
  | OfflineEvent
  | StoredFlagWritten bool

fun exec :: "operation \<Rightarrow> World \<Rightarrow> World" where
  "exec (PersistTransaction t) w = snd (saveTransaction t w)"
| "exec Reconcile w = snd (sync w)"
| "exec DrainPending w = snd (syncTransactions w)"
| "exec OnlineEvent w = on_online w"
| "exec OfflineEvent w = on_offline w"
| "exec (StoredFlagWritten b) w =
     w\<lparr>db := (db w)\<lparr>syncState := (syncState (db w))\<lparr>isOnline_stored := b\<rparr>\<rparr>\<rparr>"

fun run :: "operation list \<Rightarrow> World \<Rightarrow> World" where
  "run [] w = w"
| "run (x # xs) w = run xs (exec x w)"

text \<open>A freshly started terminal: nothing stored locally, nothing logged.\<close>

definition fresh_world :: "bool \<Rightarrow> bool \<Rightarrow> RemoteStore \<Rightarrow> Net \<Rightarrow> World" where
  "fresh_world online flag r n =
     \<lparr>service = constructor online,
      db = \<lparr>products = [], transactions = [],
            syncState = \<lparr>lastSync = None, pendingTransactions = [], isOnline_stored = flag\<rparr>\<rparr>,
      supabase = r, net = n, trace = [], clock = 0\<rparr>"

text \<open>The ids the engine has seen delivered: it logs \<^verbatim>\<open>synced\<close> for an id exactly when both
  writes of a delivery came back without error.\<close>

fun synced_id :: "event \<Rightarrow> string option" where
  "synced_id (LogSynced i) = Some i"
| "synced_id _ = None"

definition confirmed :: "World \<Rightarrow> string list" where
  "confirmed w = List.map_filter synced_id (trace w)"

definition stored_ids :: "World \<Rightarrow> string list" where
  "stored_ids w = map tid (transactions (db w))"

definition pending_ids :: "World \<Rightarrow> string list" where
  "pending_ids w = pendingTransactions (syncState (db w))"

text \<open>The pending set is exactly the stored transactions not yet confirmed.\<close>

definition pending_correct :: "World \<Rightarrow> bool" where
  "pending_correct w \<longleftrightarrow> set (pending_ids w) = set (stored_ids w) - set (confirmed w)"

text \<open>The pending set is right, and only stored transactions have been confirmed.\<close>

definition consistent :: "World \<Rightarrow> bool" where
  "consistent w \<longleftrightarrow> pending_correct w \<and> set (confirmed w) \<subseteq> set (stored_ids w)"

section \<open>Calls that overlap\<close>

text \<open>The operations are asynchronous: a call runs up to an \<^verbatim>\<open>await\<close>, is suspended there
  and is resumed later, and between the two any other call or resumption may run (the
  online listener calls \<^verbatim>\<open>sync\<close> without awaiting it). A suspended call is a task: the place
  where it waits and what it holds in local variables. The steps are cut between the
  stages of a pass (product refresh, loading the pending transactions, each delivery
  attempt of each transaction with the wait that follows a failure, the stamp) and, in
  \<^verbatim>\<open>saveTransaction\<close>, between reading the SyncState (line 245) and the push that ends by
  writing that copy back (lines 246 to 312). No statement inside a step reads or writes
  \<^verbatim>\<open>isSyncing\<close>, except the one that releases it. The tail of
  the public \<^verbatim>\<open>syncTransactions\<close> (lines 134 to 147) is the tail of \<^verbatim>\<open>sync\<close> (lines 65 to 77)
  statement for statement, so both use the same tasks from \<open>SyncLoad\<close> on.\<close>

datatype task =
    SyncRefresh
  | SyncLoad
  | SyncDrain "Transaction option list"
  | SyncAttempt Transaction nat "Transaction option list"
  | SyncStamp
  | SavePush Transaction SyncState

text \<open>\<^verbatim>\<open>sync\<close> up to its first \<^verbatim>\<open>await\<close> (lines 53 to 63): the guard, and taking it.\<close>

definition sync_call :: "World \<Rightarrow> task option \<times> World" where
  "sync_call w =
     (if \<not> isOnline (service w) \<or> isSyncing (service w) then (None, emit LogSkippingSync w)
      else (Some SyncRefresh, set_isSyncing True w))"

text \<open>\<^verbatim>\<open>syncTransactions\<close> up to its first \<^verbatim>\<open>await\<close> (lines 121 to 134).\<close>

definition syncTransactions_call :: "World \<Rightarrow> (error + task) \<times> World" where
  "syncTransactions_call w =
     (if \<not> isOnline (service w) then (Inl CannotSyncOffline, w)
      else if isSyncing (service w) then (Inl SyncInProgress, w)
      else (Inr SyncLoad, set_isSyncing True w))"

text \<open>\<^verbatim>\<open>saveTransaction\<close> up to the read of the SyncState (lines 243 to 245): the local
  save, and the copy of the SyncState the rest of the call works with.\<close>

definition saveTransaction_read :: "Transaction \<Rightarrow> World \<Rightarrow> SyncState \<times> World" where
  "saveTransaction_read t w =
     (let w0 = w\<lparr>db := db_saveTransaction t (db w)\<rparr>
      in (db_getSyncState (db w0), w0))"

text \<open>The rest of \<^verbatim>\<open>saveTransaction\<close> (lines 246 to 312), with \<open>state\<close> the copy read at
  line 245: on success that copy, stamped, is written back.\<close>

definition saveTransaction_push ::
  "Transaction \<Rightarrow> SyncState \<Rightarrow> World \<Rightarrow> (error + unit) \<times> World" where
  "saveTransaction_push t state w =
     (if isOnline_stored state then
        (case upload t w of
           (Inr _, w1) \<Rightarrow>
             (let w2 = emit (LogSynced (tid t)) w1
              in (Inr (),
                  w2\<lparr>db := db_updateSyncState (state\<lparr>lastSync := Some (clock w2)\<rparr>) (db w2)\<rparr>))
         | (Inl e, w1) \<Rightarrow>
             (Inl e,
              emit (LogAddedToPending (tid t))
                (w1\<lparr>db := db_addPendingTransaction (tid t) (db w1)\<rparr>)))
      else
        (Inl OfflineSavedLocally,
         emit (LogSavedOffline (tid t))
           (w\<lparr>db := db_addPendingTransaction (tid t) (db w)\<rparr>)))"

text \<open>One step of a suspended call: what it does when resumed, and where it waits next,
  if it is not finished.\<close>

fun resume :: "task \<Rightarrow> World \<Rightarrow> task option \<times> World" where
  "resume SyncRefresh w =
     (case syncProducts True w of
        (Inl e, w1) \<Rightarrow> (None, set_isSyncing False (emit LogSyncFailed w1))
      | (Inr _, w1) \<Rightarrow> (Some SyncLoad, w1))"
| "resume SyncLoad w =
     (Some (SyncDrain (map (\<lambda>i. db_getTransaction i (db w))
                          (pendingTransactions (db_getSyncState (db w))))), w)"
| "resume (SyncDrain []) w = (Some SyncStamp, w)"
| "resume (SyncDrain (None # ts)) w = (Some (SyncDrain ts), w)"
| "resume (SyncDrain (Some t # ts)) w = (Some (SyncAttempt t 0 ts), w)"
| "resume (SyncAttempt t retries ts) w =
     (if retries < maxRetries (service w) then
        (case upload t (emit (LogAttempting (tid t) (retries + 1)) w) of
           (Inr _, w1) \<Rightarrow>
             (Some (SyncDrain ts),
              emit (LogSynced (tid t)) (w1\<lparr>db := db_removePendingTransaction (tid t) (db w1)\<rparr>))
         | (Inl e, w1) \<Rightarrow>
             (if retries + 1 = maxRetries (service w)
              then (Some (SyncDrain ts), emit (LogFailedAfter (tid t) (maxRetries (service w))) w1)
              else (Some (SyncAttempt t (retries + 1) ts),
                    sleep (retryDelay (service w)) (emit (LogRetrying (tid t) (retries + 2)) w1))))
      else (Some (SyncDrain ts), w))"
| "resume SyncStamp w = (None, set_isSyncing False (emit LogSyncCompleted (stamp_lastSync w)))"
| "resume (SavePush t state) w = (None, snd (saveTransaction_push t state w))"

fun task_stage :: "task \<Rightarrow> nat" where
  "task_stage SyncRefresh = 3"
| "task_stage SyncLoad = 2"
| "task_stage (SyncDrain ts) = 1"
| "task_stage (SyncAttempt t retries ts) = 1"
| "task_stage SyncStamp = 0"
| "task_stage (SavePush t state) = 0"

fun task_left :: "task \<Rightarrow> nat" where
  "task_left (SyncDrain ts) = 2 * length ts"
| "task_left (SyncAttempt t retries ts) = 2 * length ts + 1"
| "task_left _ = 0"

fun task_tries :: "task \<Rightarrow> World \<Rightarrow> nat" where
  "task_tries (SyncAttempt t retries ts) w = maxRetries (service w) - retries"
| "task_tries _ w = 0"

text \<open>A task resumed again and again, nothing else running in between, until it is
  finished.\<close>

function finish :: "task \<Rightarrow> World \<Rightarrow> World" where
  "finish k w = (case resume k w of (None, w1) \<Rightarrow> w1 | (Some k', w1) \<Rightarrow> finish k' w1)"
  by pat_completeness auto

lemma resume_decreases:
  "resume k w = (Some k', w1) \<Longrightarrow>
   task_stage k' < task_stage k \<or>
   (task_stage k' = task_stage k \<and> task_left k' < task_left k) \<or>
   (task_stage k' = task_stage k \<and> task_left k' = task_left k \<and>
    task_tries k' w1 < task_tries k w)"
proof (induction k w rule: resume.induct)
  case (6 t retries ts w)
  obtain r v where up: "upload t (emit (LogAttempting (tid t) (retries + 1)) w) = (r, v)"
    by (cases "upload t (emit (LogAttempting (tid t) (retries + 1)) w)")
  then have "service v = service w"
    using upload_service [of t "emit (LogAttempting (tid t) (retries + 1)) w"]
    by (simp add: emit_def)
  with 6 up show ?case
    by (cases r) (auto simp add: emit_def sleep_def split: if_splits)
qed (auto split: sum.splits prod.splits)

termination finish
proof (relation "measures [\<lambda>(k, w). task_stage k, \<lambda>(k, w). task_left k,
    \<lambda>(k, w). task_tries k w]", goal_cases)
  case 1
  show ?case by simp
next
  case (2 k w x y k')
  then have "resume k w = (Some k', y)" by simp
  from resume_decreases [OF this] show ?case by auto
qed

text \<open>A pass of \<^verbatim>\<open>sync\<close> or \<^verbatim>\<open>syncTransactions\<close>, as opposed to a save in progress.\<close>

fun is_pass :: "task \<Rightarrow> bool" where
  "is_pass (SavePush t state) = False"
| "is_pass _ = True"

text \<open>The terminal with its suspended calls.\<close>

record Sched =
  world :: World
  tasks :: "task list"

definition passes_in_flight :: "Sched \<Rightarrow> task list" where
  "passes_in_flight s = filter is_pass (tasks s)"

text \<open>What can happen next: a call of one of the three public operations, one of the
  two connectivity events, a rewrite of the stored online flag, or the resumption of the
  suspended call at a position of the list.\<close>

datatype action =
    CallSync
  | CallSyncTransactions
  | CallSaveTransaction Transaction
  | Online
  | Offline
  | WriteStoredFlag bool
  | Resume nat

definition spawn :: "task option \<Rightarrow> World \<Rightarrow> Sched \<Rightarrow> Sched" where
  "spawn k w s = \<lparr>world = w, tasks = (case k of None \<Rightarrow> tasks s | Some k' \<Rightarrow> tasks s @ [k'])\<rparr>"

fun step :: "action \<Rightarrow> Sched \<Rightarrow> Sched" where
  "step CallSync s = (case sync_call (world s) of (k, w1) \<Rightarrow> spawn k w1 s)"
| "step Online s = (case sync_call (set_isOnline True (world s)) of (k, w1) \<Rightarrow> spawn k w1 s)"
| "step Offline s = s\<lparr>world := set_isOnline False (world s)\<rparr>"
| "step CallSyncTransactions s =
     (case syncTransactions_call (world s) of
        (Inl e, w1) \<Rightarrow> spawn None w1 s
      | (Inr k, w1) \<Rightarrow> spawn (Some k) w1 s)"
| "step (CallSaveTransaction t) s =
     (case saveTransaction_read t (world s) of (state, w0) \<Rightarrow> spawn (Some (SavePush t state)) w0 s)"
| "step (WriteStoredFlag b) s =
     s\<lparr>world := (world s)\<lparr>db := (db (world s))
          \<lparr>syncState := (syncState (db (world s)))\<lparr>isOnline_stored := b\<rparr>\<rparr>\<rparr>\<rparr>"
| "step (Resume n) s =
     (if n < length (tasks s) then
        (case resume (tasks s ! n) (world s) of
           (None, w1) \<Rightarrow> \<lparr>world = w1, tasks = take n (tasks s) @ drop (Suc n) (tasks s)\<rparr>
         | (Some k', w1) \<Rightarrow> \<lparr>world = w1, tasks = (tasks s)[n := k']\<rparr>)
      else s)"

fun schedule :: "action list \<Rightarrow> Sched \<Rightarrow> Sched" where
  "schedule [] s = s"
| "schedule (a # as) s = schedule as (step a s)"

text \<open>A freshly started terminal, no call suspended.\<close>

definition fresh_sched :: "bool \<Rightarrow> bool \<Rightarrow> RemoteStore \<Rightarrow> Net \<Rightarrow> Sched" where
  "fresh_sched online flag r n = \<lparr>world = fresh_world online flag r n, tasks = []\<rparr>"

text \<open>The guard is up exactly while a pass is in flight, and there is never more than
  one.\<close>

definition guarded :: "Sched \<Rightarrow> bool" where
  "guarded s \<longleftrightarrow>
     length (passes_in_flight s) \<le> 1 \<and>
     (isSyncing (service (world s)) \<longleftrightarrow> passes_in_flight s \<noteq> [])"

section \<open>Reading the trace\<close>

text \<open>What was logged and requested between two states of one run.\<close>

definition events_since :: "World \<Rightarrow> World \<Rightarrow> event list" where
  "events_since w w' = drop (length (trace w)) (trace w')"

text \<open>The transaction an event is about, if it is about one.\<close>

fun event_tid :: "event \<Rightarrow> string option" where
  "event_tid (Request (UpsertTransaction i)) = Some i"
| "event_tid (Request (UpsertItems i)) = Some i"
| "event_tid (LogAttempting i k) = Some i"
| "event_tid (LogSynced i) = Some i"
| "event_tid (LogRetrying i k) = Some i"
| "event_tid (LogFailedAfter i k) = Some i"
| "event_tid (LogAddedToPending i) = Some i"
| "event_tid (LogSavedOffline i) = Some i"
| "event_tid _ = None"

fun attempt_or_sleep :: "event \<Rightarrow> bool" where
  "attempt_or_sleep (LogAttempting i k) = True"
| "attempt_or_sleep (Sleep ms) = True"
| "attempt_or_sleep _ = False"

fun attempt_number :: "string \<Rightarrow> event \<Rightarrow> nat option" where
  "attempt_number i (LogAttempting j k) = (if j = i then Some k else None)"
| "attempt_number i _ = None"

text \<open>The attempt numbers logged for one transaction id, in order.\<close>

definition attempts_of :: "string \<Rightarrow> event list \<Rightarrow> nat list" where
  "attempts_of i evs = List.map_filter (attempt_number i) evs"

text \<open>\<open>n\<close> attempts numbered from \<open>k\<close>, with a wait of \<open>d\<close> between one and the next.\<close>

fun timeline :: "string \<Rightarrow> nat \<Rightarrow> nat \<Rightarrow> nat \<Rightarrow> event list" where
  "timeline i k 0 d = []"
| "timeline i k (Suc 0) d = [LogAttempting i k]"
| "timeline i k (Suc (Suc n)) d = LogAttempting i k # Sleep d # timeline i (Suc k) (Suc n) d"

fun persisted_id :: "operation \<Rightarrow> string option" where
  "persisted_id (PersistTransaction t) = Some (tid t)"
| "persisted_id _ = None"

text \<open>The ids handed to \<^verbatim>\<open>saveTransaction\<close> in a run, in order.\<close>

definition persisted_ids :: "operation list \<Rightarrow> string list" where
  "persisted_ids ops = List.map_filter persisted_id ops"

text \<open>No delivery of transaction \<open>i\<close> can go through on this network: wherever its
  transaction row is accepted, the write of its item rows that follows is not.\<close>

definition never_delivered :: "Net \<Rightarrow> string \<Rightarrow> bool" where
  "never_delivered n i \<longleftrightarrow>
     (\<forall>k. outcome_at n k (UpsertTransaction i) \<noteq> Applied \<or>
          outcome_at n (Suc k) (UpsertItems i) \<noteq> Applied)"

text \<open>The requests of one delivery of transaction \<open>i\<close> that starts as request number \<open>k\<close>,
  on a network that answers as \<open>u\<close> (who is signed in) and \<open>ans\<close> (what a request comes
  back with) say: the user is asked for; if one is signed in the transaction row is
  written; if that write comes back without error the item rows are written.\<close>

definition delivery_events ::
  "(nat \<Rightarrow> string option) \<Rightarrow> (nat \<Rightarrow> request \<Rightarrow> outcome) \<Rightarrow> nat \<Rightarrow> string \<Rightarrow> event list" where
  "delivery_events u ans k i =
     Request GetUser #
     (if u k = None then []
      else Request (UpsertTransaction i) #
           (if ans (Suc k) (UpsertTransaction i) = Applied then [Request (UpsertItems i)] else []))"

text \<open>What a retry loop that never gets a delivery through logs and requests: \<open>n\<close> more
  attempts, the next numbered \<open>a\<close> and starting as request number \<open>k\<close>, under a ceiling
  of \<open>m\<close> attempts and a wait of \<open>d\<close>.\<close>

fun failing_rounds ::
  "(nat \<Rightarrow> string option) \<Rightarrow> (nat \<Rightarrow> request \<Rightarrow> outcome) \<Rightarrow> string \<Rightarrow> nat \<Rightarrow> nat \<Rightarrow>
   nat \<Rightarrow> nat \<Rightarrow> nat \<Rightarrow> event list" where
  "failing_rounds u ans i m d k a 0 = []"
| "failing_rounds u ans i m d k a (Suc 0) =
     LogAttempting i a # delivery_events u ans k i @ [LogFailedAfter i m]"
| "failing_rounds u ans i m d k a (Suc (Suc n)) =
     LogAttempting i a # delivery_events u ans k i @ LogRetrying i (Suc a) # Sleep d #
     failing_rounds u ans i m d (k + length (delivery_events u ans k i)) (Suc a) (Suc n)"

text \<open>The ids of the transaction rows the Remote Store holds.\<close>

definition remote_row_ids :: "World \<Rightarrow> string set" where
  "remote_row_ids w = row_id ` set (remote_transactions (supabase w))"

text \<open>Between the states \<open>w\<close> and \<open>w'\<close> of one run a first attempt of \<open>i\<close> was made: its
  log line is followed by the requests of a delivery of \<open>i\<close>, and if a user was signed in
  and the server did not refuse the transaction row of that delivery, the Remote Store
  holds a row for \<open>i\<close> in \<open>w'\<close>.\<close>

abbreviation first_attempt_made :: "World \<Rightarrow> World \<Rightarrow> string \<Rightarrow> bool" where
  "first_attempt_made w w' i \<equiv>
     (\<exists>pre post k.
        requests (net w) \<le> k \<and>
        events_since w w' =
          pre @ LogAttempting i 1 #
          delivery_events (user_at (net w)) (outcome_at (net w)) k i @ post \<and>
        (user_at (net w) k \<noteq> None \<and>
         outcome_at (net w) (Suc k) (UpsertTransaction i) \<noteq> Refused \<longrightarrow>
           i \<in> remote_row_ids w'))"

section \<open>Example data\<close>

text \<open>The sale of the end-to-end scenario: one line, two coffees at 2.99.\<close>

definition sale_T1 :: Transaction where
  "sale_T1 =
     \<lparr>tid = ''T1'', date = ''2024-05-01T10:00:00Z'', subtotal = 598 / 100, tax = 30 / 100,
      total = 628 / 100, status = ''completed'',
      items = [\<lparr>item_id = ''P1'', item_name = ''Coffee'', item_price = 299 / 100,
                item_quantity = 2\<rparr>]\<rparr>"

definition sale_T2 :: Transaction where
  "sale_T2 =
     \<lparr>tid = ''T2'', date = ''2024-05-01T10:05:00Z'', subtotal = 199 / 100, tax = 10 / 100,
      total = 209 / 100, status = ''completed'',
      items = [\<lparr>item_id = ''P2'', item_name = ''Tea'', item_price = 199 / 100,
                item_quantity = 1\<rparr>]\<rparr>"

definition product_A :: Product where
  "product_A = \<lparr>pid = ''A'', pname = ''Coffee'', description = ''Freshly brewed coffee'',
     pprice = 299 / 100, stock = 100, category = ''beverages'', image = ''a.png''\<rparr>"

definition product_B :: Product where
  "product_B = \<lparr>pid = ''B'', pname = ''Tea'', description = ''Organic herbal tea'',
     pprice = 199 / 100, stock = 100, category = ''beverages'', image = ''b.png''\<rparr>"

definition product_C :: Product where
  "product_C = \<lparr>pid = ''C'', pname = ''Pen'', description = ''Black ink pen'',
     pprice = 149 / 100, stock = 100, category = ''stationery'', image = ''c.png''\<rparr>"

definition remote_with :: "Product list \<Rightarrow> RemoteStore" where
  "remote_with ps =
     \<lparr>remote_products = ps, remote_transactions = [], remote_items = [], next_uuid = 0\<rparr>"

text \<open>A network on which a user is signed in and every request gets the given answer.\<close>

definition net_always :: "outcome \<Rightarrow> Net" where
  "net_always a = \<lparr>requests = 0, user_at = (\<lambda>n. Some ''u1''), outcome_at = (\<lambda>n q. a)\<rparr>"

text \<open>A network on which every request is applied, except that the answer to request
  \<open>k\<close> is lost.\<close>

definition net_lost_at :: "nat \<Rightarrow> Net" where
  "net_lost_at k =
     \<lparr>requests = 0, user_at = (\<lambda>n. Some ''u1''),
      outcome_at = (\<lambda>n q. if n = k then Lost else Applied)\<rparr>"

text \<open>A network on which every request is applied, but nobody is signed in at the first.\<close>

definition net_signed_out_first :: Net where
  "net_signed_out_first =
     \<lparr>requests = 0, user_at = (\<lambda>n. if n = 0 then None else Some ''u1''),
      outcome_at = (\<lambda>n q. Applied)\<rparr>"

text \<open>A terminal that has saved the sale \<open>T1\<close> while its stored online flag was off.\<close>

definition world_T1_offline :: World where
  "world_T1_offline =
     run [PersistTransaction sale_T1]
       (fresh_world False False (remote_with []) (net_always Applied))"

text \<open>A network on which a user is signed in and every request is applied, except that
  every write of item rows is refused.\<close>

definition net_items_refused :: Net where
  "net_items_refused =
     \<lparr>requests = 0, user_at = (\<lambda>n. Some ''u1''),
      outcome_at = (\<lambda>n q. case q of UpsertItems i \<Rightarrow> Refused | _ \<Rightarrow> Applied)\<rparr>"

text \<open>A network on which a user is signed in and every request is applied, except that
  the transaction row of \<open>T1\<close> is refused every time.\<close>

definition net_T1_refused :: Net where
  "net_T1_refused =
     \<lparr>requests = 0, user_at = (\<lambda>n. Some ''u1''),
      outcome_at = (\<lambda>n q. if q = UpsertTransaction ''T1'' then Refused else Applied)\<rparr>"

text \<open>A terminal that has saved \<open>T1\<close> and \<open>T2\<close> while its stored online flag was off;
  both are pending, \<open>T1\<close> first.\<close>

definition world_two_pending :: World where
  "world_two_pending =
     run [PersistTransaction sale_T1, PersistTransaction sale_T2]
       (fresh_world True False (remote_with []) net_T1_refused)"

text \<open>A terminal whose cache holds \<open>A\<close> and \<open>B\<close> while the remote table is empty.\<close>

definition world_stale_cache :: World where
  "world_stale_cache =
     (fresh_world True True (remote_with []) (net_always Applied))
       \<lparr>db := db_saveProducts [product_A, product_B]
                (db (fresh_world True True (remote_with []) (net_always Applied)))\<rparr>"

text \<open>A terminal whose cache holds \<open>A\<close> and \<open>B\<close> while the remote table holds \<open>B\<close>
  and \<open>C\<close>.\<close>

definition world_cache_AB_remote_BC :: World where
  "world_cache_AB_remote_BC =
     (fresh_world True True (remote_with [product_B, product_C]) (net_always Applied))
       \<lparr>db := db_saveProducts [product_A, product_B]
                (db (fresh_world True True (remote_with [product_B, product_C])
                       (net_always Applied)))\<rparr>"

text \<open>A terminal on which the sale \<open>T1\<close> is saved twice: the first push finds nobody
  signed in, the second goes through.\<close>

definition world_T1_saved_twice :: World where
  "world_T1_saved_twice =
     run [PersistTransaction sale_T1, PersistTransaction sale_T1]
       (fresh_world True True (remote_with []) net_signed_out_first)"

text \<open>A terminal with the sale \<open>T1\<close> pending, on a network that loses the answer to
  the third request: the first write of the item rows is applied, but reported as failed.\<close>

definition world_T1_lost_answer :: World where
  "world_T1_lost_answer =
     run [PersistTransaction sale_T1] (fresh_world True False (remote_with []) (net_lost_at 2))"

text \<open>Two sales with different ids, and a save that overlaps a pass. The push of \<open>T1\<close>
  finds nobody signed in, so \<open>T1\<close> is pending. A pass starts, refreshes the products,
  loads \<open>T1\<close> and is about to deliver it when the save of \<open>T2\<close> stores \<open>T2\<close> and reads
  the SyncState. The pass delivers \<open>T1\<close> and takes it out of the pending set; the push of
  \<open>T2\<close> succeeds and writes back the SyncState it read; the pass stamps and ends.\<close>

definition sched_save_overlaps_pass :: Sched where
  "sched_save_overlaps_pass =
     schedule
       [CallSaveTransaction sale_T1, Resume 0,
        CallSync, Resume 0, Resume 0, Resume 0,
        CallSaveTransaction sale_T2,
        Resume 0, Resume 1,
        Resume 0, Resume 0]
       (fresh_sched True True (remote_with []) net_signed_out_first)"

text \<open>Two sales with different ids, saved at the same time. Both calls read the
  SyncState before either pushes; the push of \<open>T1\<close> finds nobody signed in and puts \<open>T1\<close>
  in the pending set; the push of \<open>T2\<close> succeeds and writes back the SyncState it
  read.\<close>

definition sched_two_saves_overlap :: Sched where
  "sched_two_saves_overlap =
     schedule
       [CallSaveTransaction sale_T1, CallSaveTransaction sale_T2, Resume 0, Resume 0]
       (fresh_sched True True (remote_with []) net_signed_out_first)"

text \<open>A pass started on a fresh terminal and resumed once: it has refreshed the products
  and is suspended before it loads the pending transactions.\<close>

definition sched_pass_in_flight :: Sched where
  "sched_pass_in_flight =
     schedule [CallSync, Resume 0] (fresh_sched True True (remote_with []) (net_always Applied))"

section \<open>Facts about the building blocks\<close>

declare retry_loop.simps [simp del]

lemmas remote_defs = auth_getUser_def upsert_transaction_def upsert_items_def
  select_products_def tick_def emit_def answer_def Let_def

lemma find_put: "find (\<lambda>y. key y = key x) (put key x ys) = Some x"
  by (induction ys) auto

subsection \<open>One delivery\<close>

lemma upload_db: "db (snd (upload t w)) = db w"
  by (auto simp: upload_def remote_defs split: option.splits prod.splits bool.splits if_splits)

lemma upload_clock: "clock (snd (upload t w)) = clock w"
  by (auto simp: upload_def remote_defs split: option.splits prod.splits bool.splits if_splits)

lemma upload_user_at: "user_at (net (snd (upload t w))) = user_at (net w)"
  by (auto simp: upload_def remote_defs split: option.splits prod.splits bool.splits if_splits)

lemma upload_outcome_at: "outcome_at (net (snd (upload t w))) = outcome_at (net w)"
  by (auto simp: upload_def remote_defs split: option.splits prod.splits bool.splits if_splits)

text \<open>The events, the result and the request count of one delivery, read off the answers
  of the network.\<close>

lemma upload_trace:
  "trace (snd (upload t w)) = trace w @
     (let n = requests (net w) in
      Request GetUser #
      (if user_at (net w) n = None then []
       else Request (UpsertTransaction (tid t)) #
            (if outcome_at (net w) (Suc n) (UpsertTransaction (tid t)) = Applied
             then [Request (UpsertItems (tid t))] else [])))"
  by (auto simp: upload_def remote_defs format_transaction_def
      split: option.splits prod.splits bool.splits if_splits)

lemma upload_result:
  "fst (upload t w) =
     (let n = requests (net w) in
      if user_at (net w) n = None then Inl NoAuthenticatedUser
      else if outcome_at (net w) (Suc n) (UpsertTransaction (tid t)) \<noteq> Applied
      then Inl TransactionError
      else if outcome_at (net w) (Suc (Suc n)) (UpsertItems (tid t)) \<noteq> Applied
      then Inl ItemsError
      else Inr ())"
  by (auto simp: upload_def remote_defs format_transaction_def
      split: option.splits prod.splits bool.splits if_splits)

lemma upload_requests:
  "requests (net (snd (upload t w))) =
     (let n = requests (net w) in
      if user_at (net w) n = None then Suc n
      else if outcome_at (net w) (Suc n) (UpsertTransaction (tid t)) \<noteq> Applied
      then Suc (Suc n)
      else Suc (Suc (Suc n)))"
  by (auto simp: upload_def remote_defs format_transaction_def
      split: option.splits prod.splits bool.splits if_splits)

subsection \<open>The retry loop and the drain pass\<close>

text \<open>A property kept by every step of the retry loop is kept by the loop; the removal
  from the pending set and the log line that follows it count as one step.\<close>

lemma retry_loop_invariant:
  assumes emitP:
      "\<And>w e. P w \<Longrightarrow> event_tid e = Some (tid t) \<Longrightarrow> synced_id e = None \<Longrightarrow> P (emit e w)"
    and uploadP: "\<And>w. P w \<Longrightarrow> P (snd (upload t w))"
    and syncedP:
      "\<And>w. P w \<Longrightarrow>
         P (emit (LogSynced (tid t)) (w\<lparr>db := db_removePendingTransaction (tid t) (db w)\<rparr>))"
    and sleepP: "\<And>w ms. P w \<Longrightarrow> P (sleep ms w)"
  shows "P w \<Longrightarrow> P (retry_loop t r w)"
proof -
  have "t' = t \<Longrightarrow> P w \<Longrightarrow> P (retry_loop t' r w)" for t'
  proof (induction t' r w rule: retry_loop.induct)
    case (1 t' retries w)
    from "1.prems" have tt: "t' = t" and Pw: "P w" by simp_all
    note IH = "1.IH" [unfolded tt]
    let ?w0 = "emit (LogAttempting (tid t) (retries + 1)) w"
    have goal: "P (retry_loop t retries w)"
    proof (cases "retries < maxRetries (service w)")
      case False
      with Pw show ?thesis by (simp add: retry_loop.simps [of t retries w])
    next
      case True
      obtain res w1 where up: "upload t ?w0 = (res, w1)" by (cases "upload t ?w0")
      have "P ?w0" by (rule emitP [OF Pw]) simp_all
      then have "P (snd (upload t ?w0))" by (rule uploadP)
      then have Pw1: "P w1" using up by simp
      show ?thesis
      proof (cases res)
        case (Inr u)
        have "P (emit (LogSynced (tid t)) (w1\<lparr>db := db_removePendingTransaction (tid t) (db w1)\<rparr>))"
          by (rule syncedP [OF Pw1])
        with True up Inr show ?thesis
          by (simp add: retry_loop.simps [of t retries w])
      next
        case (Inl e)
        show ?thesis
        proof (cases "retries + 1 = maxRetries (service w)")
          case last: True
          have "P (emit (LogFailedAfter (tid t) (maxRetries (service w))) w1)"
            by (rule emitP [OF Pw1]) simp_all
          then have "P (retry_loop t (retries + 1)
                   (emit (LogFailedAfter (tid t) (maxRetries (service w))) w1))"
            using IH(1) [OF True up [symmetric] _ last] Inl by simp
          with True up Inl last show ?thesis
            by (simp add: retry_loop.simps [of t retries w])
        next
          case notlast: False
          have "P (emit (LogRetrying (tid t) (retries + 2)) w1)"
            by (rule emitP [OF Pw1]) simp_all
          then have "P (sleep (retryDelay (service w))
                     (emit (LogRetrying (tid t) (retries + 2)) w1))"
            by (rule sleepP)
          then have "P (retry_loop t (retries + 1)
                   (sleep (retryDelay (service w)) (emit (LogRetrying (tid t) (retries + 2)) w1)))"
            using IH(2) [OF True up [symmetric] _ notlast] Inl by simp
          with True up Inl notlast show ?thesis
            by (simp add: retry_loop.simps [of t retries w])
        qed
      qed
    qed
    then show ?case by (simp add: tt)
  qed
  then show "P w \<Longrightarrow> P (retry_loop t r w)" by simp
qed

text \<open>A property kept by every statement of the retry loop is kept by the loop.\<close>

lemma retry_loop_preserves:
  assumes emitP: "\<And>w e. P w \<Longrightarrow> event_tid e = Some (tid t) \<Longrightarrow> P (emit e w)"
    and uploadP: "\<And>w. P w \<Longrightarrow> P (snd (upload t w))"
    and removeP: "\<And>w. P w \<Longrightarrow> P (w\<lparr>db := db_removePendingTransaction (tid t) (db w)\<rparr>)"
    and sleepP: "\<And>w ms. P w \<Longrightarrow> P (sleep ms w)"
  shows "P w \<Longrightarrow> P (retry_loop t r w)"
proof (rule retry_loop_invariant [where P = P])
  show "P (emit (LogSynced (tid t)) (v\<lparr>db := db_removePendingTransaction (tid t) (db v)\<rparr>))"
    if "P v" for v
    by (rule emitP [OF removeP [OF that]]) simp
qed (simp_all add: emitP uploadP sleepP)

lemma drain_each_preserves:
  assumes "\<And>w t. Some t \<in> set ts \<Longrightarrow> P w \<Longrightarrow> P (retry_loop t 0 w)"
  shows "P w \<Longrightarrow> P (drain_each ts w)"
  using assms by (induction ts w rule: drain_each.induct) simp_all

lemma drain_each_append: "drain_each (xs @ ys) w = drain_each ys (drain_each xs w)"
  by (induction xs w rule: drain_each.induct) simp_all

lemma retry_loop_stop: "\<not> r < maxRetries (service w) \<Longrightarrow> retry_loop t r w = w"
  by (simp add: retry_loop.simps [of t r w])

lemma events_since_append: "trace w' = trace w @ evs \<Longrightarrow> events_since w w' = evs"
  by (simp add: events_since_def)

lemma retry_loop_service: "service (retry_loop t r w) = service w"
  by (rule retry_loop_preserves [where P = "\<lambda>w'. service w' = service w"])
     (simp_all add: emit_def sleep_def upload_service)

lemma retry_loop_transactions: "transactions (db (retry_loop t r w)) = transactions (db w)"
  by (rule retry_loop_preserves [where P = "\<lambda>w'. transactions (db w') = transactions (db w)"])
     (simp_all add: emit_def sleep_def upload_db db_removePendingTransaction_def)

lemma retry_loop_stored_flag:
  "isOnline_stored (syncState (db (retry_loop t r w))) = isOnline_stored (syncState (db w))"
  by (rule retry_loop_preserves
        [where P = "\<lambda>w'. isOnline_stored (syncState (db w')) = isOnline_stored (syncState (db w))"])
     (simp_all add: emit_def sleep_def upload_db db_removePendingTransaction_def)

lemma retry_loop_trace_prefix: "prefix (trace w) (trace (retry_loop t r w))"
  by (rule retry_loop_preserves [where P = "\<lambda>w'. prefix (trace w) (trace w')"])
     (simp_all add: emit_def sleep_def upload_trace db_removePendingTransaction_def Let_def)

lemma retry_loop_outcome_at: "outcome_at (net (retry_loop t r w)) = outcome_at (net w)"
  by (rule retry_loop_preserves [where P = "\<lambda>w'. outcome_at (net w') = outcome_at (net w)"])
     (simp_all add: emit_def sleep_def upload_outcome_at)

lemma drain_each_service: "service (drain_each ts w) = service w"
  by (rule drain_each_preserves [where P = "\<lambda>w'. service w' = service w"])
     (simp_all add: retry_loop_service)

lemma drain_each_transactions: "transactions (db (drain_each ts w)) = transactions (db w)"
  by (rule drain_each_preserves [where P = "\<lambda>w'. transactions (db w') = transactions (db w)"])
     (simp_all add: retry_loop_transactions)

lemma drain_each_stored_flag:
  "isOnline_stored (syncState (db (drain_each ts w))) = isOnline_stored (syncState (db w))"
  by (rule drain_each_preserves
        [where P = "\<lambda>w'. isOnline_stored (syncState (db w')) = isOnline_stored (syncState (db w))"])
     (simp_all add: retry_loop_stored_flag)

lemma drain_each_trace_prefix: "prefix (trace w) (trace (drain_each ts w))"
  by (rule drain_each_preserves [where P = "\<lambda>w'. prefix (trace w) (trace w')"])
     (auto intro: prefix_order.trans retry_loop_trace_prefix)

lemma upload_never_delivered:
  assumes "never_delivered (net w) (tid t)"
  shows "\<exists>e. fst (upload t w) = Inl e"
  using assms by (auto simp add: upload_result Let_def never_delivered_def)

lemma upload_no_attempt_or_sleep:
  "\<exists>reqs. trace (snd (upload t w)) = trace w @ reqs \<and> filter attempt_or_sleep reqs = []"
  by (simp add: upload_trace Let_def)

lemma retry_loop_all_fail:
  "never_delivered (net w) (tid t) \<Longrightarrow>
   db (retry_loop t r w) = db w \<and>
   clock (retry_loop t r w) = clock w + (maxRetries (service w) - r - 1) * retryDelay (service w) \<and>
   (\<exists>evs. trace (retry_loop t r w) = trace w @ evs \<and>
      filter attempt_or_sleep evs =
        timeline (tid t) (r + 1) (maxRetries (service w) - r) (retryDelay (service w)))"
proof (induction t r w rule: retry_loop.induct)
  case (1 t retries w)
  let ?m = "maxRetries (service w)"
  let ?d = "retryDelay (service w)"
  let ?w0 = "emit (LogAttempting (tid t) (retries + 1)) w"
  show ?case
  proof (cases "retries < ?m")
    case False
    then show ?thesis by (simp add: retry_loop.simps [of t retries w])
  next
    case True
    have fail0: "never_delivered (net ?w0) (tid t)" using "1.prems" by (simp add: emit_def)
    obtain res w1 where up: "upload t ?w0 = (res, w1)" by (cases "upload t ?w0")
    from upload_never_delivered [OF fail0] up obtain e where res: "res = Inl e" by auto
    have w1: "db w1 = db w" "clock w1 = clock w" "service w1 = service w"
      "never_delivered (net w1) (tid t)"
      using fail0 upload_db [of t ?w0] upload_clock [of t ?w0] upload_service [of t ?w0]
        upload_outcome_at [of t ?w0] up by (simp_all add: emit_def never_delivered_def)
    obtain reqs where tr1: "trace w1 = trace w @ LogAttempting (tid t) (retries + 1) # reqs"
      and reqs: "filter attempt_or_sleep reqs = []"
      using upload_no_attempt_or_sleep [of t ?w0] up by (auto simp add: emit_def)
    show ?thesis
    proof (cases "retries + 1 = ?m")
      case last: True
      let ?w2 = "emit (LogFailedAfter (tid t) ?m) w1"
      have eq: "retry_loop t retries w = retry_loop t (retries + 1) ?w2"
        using True up res last by (simp add: retry_loop.simps [of t retries w])
      have stop: "retry_loop t (retries + 1) ?w2 = ?w2"
        by (rule retry_loop_stop) (use last w1 in \<open>simp add: emit_def\<close>)
      have tl: "timeline (tid t) (retries + 1) (?m - retries) ?d = [LogAttempting (tid t) (retries + 1)]"
      proof -
        have "?m - retries = Suc 0" using last by arith
        then show ?thesis by simp
      qed
      show ?thesis unfolding eq stop
        using w1 tr1 reqs tl last by (simp add: emit_def)
    next
      case notlast: False
      let ?w2 = "sleep ?d (emit (LogRetrying (tid t) (retries + 2)) w1)"
      have eq: "retry_loop t retries w = retry_loop t (retries + 1) ?w2"
        using True up res notlast by (simp add: retry_loop.simps [of t retries w])
      have fail2: "never_delivered (net ?w2) (tid t)"
        using w1 by (simp add: emit_def sleep_def)
      note IH = "1.IH"(2) [OF True up [symmetric] _ notlast fail2, unfolded res, OF refl]
      have w2: "db ?w2 = db w" "clock ?w2 = clock w + ?d" "service ?w2 = service w"
        "trace ?w2 = trace w @ LogAttempting (tid t) (retries + 1) # reqs
                      @ [LogRetrying (tid t) (retries + 2), Sleep ?d]"
        using w1 tr1 by (simp_all add: emit_def sleep_def)
      from IH obtain evs where
        a: "db (retry_loop t (retries + 1) ?w2) = db w"
        and b: "clock (retry_loop t (retries + 1) ?w2) = clock w + ?d + (?m - (retries + 1) - 1) * ?d"
        and c: "trace (retry_loop t (retries + 1) ?w2) = trace ?w2 @ evs"
        and d: "filter attempt_or_sleep evs = timeline (tid t) (retries + 2) (?m - (retries + 1)) ?d"
        unfolding w2(1,2,3) by (auto simp: add.assoc)
      obtain k where k: "?m - retries = Suc (Suc k)" "?m - (retries + 1) = Suc k"
      proof
        show "?m - retries = Suc (Suc (?m - retries - 2))" using True notlast by arith
        show "?m - (retries + 1) = Suc (?m - retries - 2)" using True notlast by arith
      qed
      have k': "?m - retries - 1 = Suc k" "?m - (retries + 1) - 1 = k"
        using k by arith+
      have clk: "clock (retry_loop t (retries + 1) ?w2) = clock w + (?m - retries - 1) * ?d"
        unfolding b k' by simp
      have tl: "timeline (tid t) (retries + 1) (?m - retries) ?d =
          LogAttempting (tid t) (retries + 1) # Sleep ?d #
          timeline (tid t) (retries + 2) (?m - (retries + 1)) ?d"
        unfolding k by simp
      have "trace (retry_loop t (retries + 1) ?w2) = trace w @
          (LogAttempting (tid t) (retries + 1) # reqs
             @ [LogRetrying (tid t) (retries + 2), Sleep ?d] @ evs)"
        unfolding c w2(4) by simp
      moreover have "filter attempt_or_sleep (LogAttempting (tid t) (retries + 1) # reqs
             @ [LogRetrying (tid t) (retries + 2), Sleep ?d] @ evs) =
          timeline (tid t) (retries + 1) (?m - retries) ?d"
        unfolding tl using reqs d by simp
      ultimately show ?thesis unfolding eq using a clk by blast
    qed
  qed
qed

subsection \<open>Product refresh, stamping and a whole pass\<close>

lemma transactions_addPending [simp]: "transactions (db_addPendingTransaction i d) = transactions d"
  by (simp add: db_addPendingTransaction_def)

lemma fold_saveProduct_syncState [simp]: "syncState (fold db_saveProduct ps d) = syncState d"
  by (induction ps arbitrary: d) (simp_all add: db_saveProduct_def)

lemma fold_saveProduct_transactions [simp]:
  "transactions (fold db_saveProduct ps d) = transactions d"
  by (induction ps arbitrary: d) (simp_all add: db_saveProduct_def)

lemma syncProducts_frame:
  "service (snd (syncProducts b w)) = service w"
  "syncState (db (snd (syncProducts b w))) = syncState (db w)"
  "transactions (db (snd (syncProducts b w))) = transactions (db w)"
  "trace (snd (syncProducts b w)) = trace w @ [Request SelectProducts]"
  "outcome_at (net (snd (syncProducts b w))) = outcome_at (net w)"
  "user_at (net (snd (syncProducts b w))) = user_at (net w)"
  "clock (snd (syncProducts b w)) = clock w"
  by (simp_all add: syncProducts_def select_products_def tick_def emit_def db_saveProducts_def
      db_clearProducts_def split: sum.splits)

lemma stamp_lastSync_frame:
  "service (stamp_lastSync w) = service w"
  "pendingTransactions (syncState (db (stamp_lastSync w))) = pendingTransactions (syncState (db w))"
  "isOnline_stored (syncState (db (stamp_lastSync w))) = isOnline_stored (syncState (db w))"
  "transactions (db (stamp_lastSync w)) = transactions (db w)"
  "trace (stamp_lastSync w) = trace w"
  by (simp_all add: stamp_lastSync_def db_getSyncState_def db_updateSyncState_def Let_def)

lemma syncTransactions_private_frame:
  "service (syncTransactions_private w) = service w"
  "isOnline_stored (syncState (db (syncTransactions_private w))) = isOnline_stored (syncState (db w))"
  "transactions (db (syncTransactions_private w)) = transactions (db w)"
  "prefix (trace w) (trace (syncTransactions_private w))"
  by (simp_all add: syncTransactions_private_def Let_def drain_each_service drain_each_stored_flag
      drain_each_transactions drain_each_trace_prefix)

lemma sync_body_frame:
  "service (snd (sync_body w)) = service w"
  "isOnline_stored (syncState (db (snd (sync_body w)))) = isOnline_stored (syncState (db w))"
  by (simp_all add: sync_body_def split_beta syncProducts_frame stamp_lastSync_frame
      syncTransactions_private_frame emit_def split: sum.splits)

lemma sync_stored_flag:
  "isOnline_stored (syncState (db (snd (sync w)))) = isOnline_stored (syncState (db w))"
proof (cases "sync_body (set_isSyncing True w)")
  case (Pair r w1)
  then have "isOnline_stored (syncState (db w1)) = isOnline_stored (syncState (db w))"
    using sync_body_frame(2) [of "set_isSyncing True w"] by (simp add: set_isSyncing_def)
  with Pair show ?thesis
    by (cases r) (simp_all add: sync_def emit_def set_isSyncing_def)
qed

subsection \<open>A delivery does not read the in-memory online flag\<close>

lemma auth_getUser_set_isOnline:
  "auth_getUser (set_isOnline b w) = apsnd (set_isOnline b) (auth_getUser w)"
  by (simp add: remote_defs set_isOnline_def)

lemma upsert_transaction_set_isOnline:
  "upsert_transaction row (set_isOnline b w) = apsnd (set_isOnline b) (upsert_transaction row w)"
  by (simp add: remote_defs set_isOnline_def)

lemma upsert_items_set_isOnline:
  "upsert_items i rows (set_isOnline b w) = apsnd (set_isOnline b) (upsert_items i rows w)"
  by (simp add: remote_defs set_isOnline_def)

lemma upload_set_isOnline:
  "upload t (set_isOnline b w) = (fst (upload t w), set_isOnline b (snd (upload t w)))"
proof -
  obtain u w1 where g: "auth_getUser w = (u, w1)" by (cases "auth_getUser w")
  show ?thesis
  proof (cases u)
    case None
    with g show ?thesis by (simp add: upload_def auth_getUser_set_isOnline)
  next
    case (Some user)
    obtain e1 w2 where t1: "upsert_transaction (format_transaction t user) w1 = (e1, w2)"
      by (cases "upsert_transaction (format_transaction t user) w1")
    obtain e2 w3 where t2: "upsert_items (tid t) (map (format_item t) (items t)) w2 = (e2, w3)"
      by (cases "upsert_items (tid t) (map (format_item t) (items t)) w2")
    from g Some t1 t2 show ?thesis
      by (cases e1; cases e2)
         (simp_all add: upload_def auth_getUser_set_isOnline upsert_transaction_set_isOnline
            upsert_items_set_isOnline)
  qed
qed

subsection \<open>Guard and results\<close>

lemma world_T1_offline_pending: "pending_ids world_T1_offline = [''T1'']"
  by (simp add: world_T1_offline_def fresh_world_def saveTransaction_def db_saveTransaction_def
      db_getSyncState_def db_addPendingTransaction_def emit_def pending_ids_def sale_T1_def)

lemma sync_skips:
  "\<not> isOnline (service w) \<or> isSyncing (service w) \<Longrightarrow> sync w = (Inr (), emit LogSkippingSync w)"
  by (auto simp add: sync_def)

lemma sync_releases: "isSyncing (service (snd (sync w))) = isSyncing (service w)"
proof (cases "\<not> isOnline (service w) \<or> isSyncing (service w)")
  case True
  then show ?thesis by (simp add: sync_skips emit_def)
next
  case False
  obtain r w1 where b: "sync_body (set_isSyncing True w) = (r, w1)"
    by (cases "sync_body (set_isSyncing True w)")
  with False show ?thesis
    by (cases r) (simp_all add: sync_def set_isSyncing_def emit_def)
qed

lemma saveTransaction_result:
  "fst (saveTransaction t w) =
     (if isOnline_stored (syncState (db w))
      then fst (upload t (w\<lparr>db := db_saveTransaction t (db w)\<rparr>))
      else Inl OfflineSavedLocally)"
proof -
  let ?w0 = "w\<lparr>db := db_saveTransaction t (db w)\<rparr>"
  obtain r w1 where up: "upload t ?w0 = (r, w1)" by (cases "upload t ?w0")
  then show ?thesis
    by (cases r) (simp_all add: saveTransaction_def Let_def db_getSyncState_def db_saveTransaction_def)
qed

lemma saveTransaction_failure_pending:
  assumes "fst (saveTransaction t w) \<noteq> Inr ()"
  shows "tid t \<in> set (pending_ids (snd (saveTransaction t w)))"
    and "confirmed (snd (saveTransaction t w)) = confirmed w"
proof -
  let ?w0 = "w\<lparr>db := db_saveTransaction t (db w)\<rparr>"
  obtain r w1 where up: "upload t ?w0 = (r, w1)" by (cases "upload t ?w0")
  have tr: "List.map_filter synced_id (trace w1) = List.map_filter synced_id (trace w)"
    using upload_trace [of t ?w0] up by (simp add: Let_def map_filter_def)
  show "tid t \<in> set (pending_ids (snd (saveTransaction t w)))"
    using assms up
    by (cases r) (auto simp add: saveTransaction_def Let_def db_getSyncState_def emit_def
        pending_ids_def db_addPendingTransaction_def split: if_splits)
  show "confirmed (snd (saveTransaction t w)) = confirmed w"
    using assms up tr
    by (cases r) (auto simp add: saveTransaction_def Let_def db_getSyncState_def emit_def
        confirmed_def map_filter_def split: if_splits)
qed

subsection \<open>Every pending transaction is attempted\<close>

lemma db_getTransaction_tid: "db_getTransaction i d = Some t \<Longrightarrow> tid t = i"
  by (auto simp add: db_getTransaction_def find_Some_iff)

lemma db_getTransaction_stored: "db_getTransaction i d = Some t \<Longrightarrow> t \<in> set (transactions d)"
  by (auto simp add: db_getTransaction_def find_Some_iff)

lemma retry_loop_first_attempt:
  assumes "r < maxRetries (service w)"
  shows "prefix (trace w @ [LogAttempting (tid t) (r + 1)]) (trace (retry_loop t r w))"
proof -
  let ?w0 = "emit (LogAttempting (tid t) (r + 1)) w"
  obtain res w1 where up: "upload t ?w0 = (res, w1)" by (cases "upload t ?w0")
  have p1: "prefix (trace w @ [LogAttempting (tid t) (r + 1)]) (trace w1)"
    using upload_trace [of t ?w0] up by (simp add: emit_def Let_def)
  show ?thesis
  proof (cases res)
    case (Inr u)
    with assms up p1 show ?thesis
      by (auto simp add: retry_loop.simps [of t r w] emit_def prefix_def)
  next
    case (Inl e)
    let ?a = "emit (LogFailedAfter (tid t) (maxRetries (service w))) w1"
    let ?b = "sleep (retryDelay (service w)) (emit (LogRetrying (tid t) (r + 2)) w1)"
    have "prefix (trace w1) (trace ?a)" "prefix (trace w1) (trace ?b)"
      by (simp_all add: emit_def sleep_def)
    with p1 have pa: "prefix (trace w @ [LogAttempting (tid t) (r + 1)]) (trace (retry_loop t (r + 1) ?a))"
      and pb: "prefix (trace w @ [LogAttempting (tid t) (r + 1)]) (trace (retry_loop t (r + 1) ?b))"
      using retry_loop_trace_prefix [of ?a t "r + 1"] retry_loop_trace_prefix [of ?b t "r + 1"]
      by (meson prefix_order.trans)+
    show ?thesis
    proof (cases "r + 1 = maxRetries (service w)")
      case True
      with assms up Inl have "retry_loop t r w = retry_loop t (r + 1) ?a"
        by (simp add: retry_loop.simps [of t r w])
      with pa show ?thesis by simp
    next
      case False
      with assms up Inl have "retry_loop t r w = retry_loop t (r + 1) ?b"
        by (simp add: retry_loop.simps [of t r w])
      with pb show ?thesis by simp
    qed
  qed
qed

lemma prefix_events_since:
  "prefix (trace w @ [e]) (trace w') \<Longrightarrow> e \<in> set (events_since w w')"
  by (auto simp add: prefix_def events_since_def)

lemma events_since_mono:
  assumes "prefix (trace w) (trace w1)"
  shows "set (events_since w1 w') \<subseteq> set (events_since w w')"
  unfolding events_since_def
  by (rule set_drop_subset_set_drop) (use assms in \<open>simp add: prefix_length_le\<close>)

lemma drain_each_attempts_all:
  "Some t \<in> set ts \<Longrightarrow> 0 < maxRetries (service w) \<Longrightarrow>
   LogAttempting (tid t) 1 \<in> set (events_since w (drain_each ts w))"
proof (induction ts w rule: drain_each.induct)
  case (1 w)
  then show ?case by simp
next
  case (2 ts w)
  then show ?case by simp
next
  case (3 t' ts w)
  let ?w1 = "retry_loop t' 0 w"
  have m: "0 < maxRetries (service ?w1)" using "3.prems" by (simp add: retry_loop_service)
  show ?case
  proof (cases "t = t'")
    case True
    have "prefix (trace w @ [LogAttempting (tid t) 1]) (trace ?w1)"
      using retry_loop_first_attempt [of 0 w t] "3.prems" True by simp
    then have "prefix (trace w @ [LogAttempting (tid t) 1]) (trace (drain_each ts ?w1))"
      using drain_each_trace_prefix [of ?w1 ts] by (meson prefix_order.trans)
    then show ?thesis by (simp add: prefix_events_since)
  next
    case False
    with "3.prems" have "Some t \<in> set ts" by simp
    from "3.IH" [OF this m]
    have "LogAttempting (tid t) 1 \<in> set (events_since ?w1 (drain_each ts ?w1))" .
    then show ?thesis
      using events_since_mono [OF retry_loop_trace_prefix [of w t' 0]] by auto
  qed
qed

lemma sync_never_throws: "fst (sync w) = Inr ()"
proof (cases "sync_body (set_isSyncing True w)")
  case (Pair r w1)
  then show ?thesis by (cases r) (simp_all add: sync_def)
qed

lemma syncTransactions_private_attempts_all:
  assumes "0 < maxRetries (service w)" "i \<in> set (pending_ids w)" "db_getTransaction i (db w) \<noteq> None"
  shows "LogAttempting i 1 \<in> set (events_since w (syncTransactions_private w))"
proof -
  from assms(3) obtain t where t: "db_getTransaction i (db w) = Some t" by blast
  then have "Some t \<in> set (map (\<lambda>i. db_getTransaction i (db w)) (pending_ids w))"
    using assms(2) by force
  from drain_each_attempts_all [OF this assms(1)] db_getTransaction_tid [OF t]
  show ?thesis
    by (simp add: syncTransactions_private_def Let_def db_getSyncState_def pending_ids_def)
qed

lemma syncProducts_result:
  "fst (syncProducts b w) =
     (if outcome_at (net w) (requests (net w)) SelectProducts = Applied then Inr ()
      else Inl FetchProductsFailed)"
  by (simp add: syncProducts_def select_products_def answer_def)

lemma events_since_extend:
  assumes "prefix (trace w') (trace w'')"
  shows "set (events_since w w') \<subseteq> set (events_since w w'')"
  using assms by (auto simp add: prefix_def events_since_def)

lemma sync_attempts_all:
  assumes m: "0 < maxRetries (service w)"
    and g: "isOnline (service w)" "\<not> isSyncing (service w)"
    and f: "outcome_at (net w) (requests (net w)) SelectProducts = Applied"
    and i: "i \<in> set (pending_ids w)" "db_getTransaction i (db w) \<noteq> None"
  shows "LogAttempting i 1 \<in> set (events_since w (snd (sync w)))"
proof -
  let ?w1 = "set_isSyncing True w"
  obtain r w2 where sp: "syncProducts True ?w1 = (r, w2)" by (cases "syncProducts True ?w1")
  have r: "r = Inr ()"
    using syncProducts_result [of True ?w1] sp f by (simp add: set_isSyncing_def)
  have w2: "service w2 = service ?w1" "syncState (db w2) = syncState (db w)"
    "transactions (db w2) = transactions (db w)" "prefix (trace w) (trace w2)"
    using syncProducts_frame(1-4) [of True ?w1] sp by (simp_all add: set_isSyncing_def)
  let ?w3 = "syncTransactions_private w2"
  have "LogAttempting i 1 \<in> set (events_since w2 ?w3)"
    by (rule syncTransactions_private_attempts_all)
       (use m i w2 in \<open>simp_all add: set_isSyncing_def pending_ids_def db_getTransaction_def\<close>)
  then have a: "LogAttempting i 1 \<in> set (events_since w ?w3)"
    using events_since_mono [OF w2(4)] by blast
  have fin: "snd (sync w) = set_isSyncing False (emit LogSyncCompleted (stamp_lastSync ?w3))"
    using g sp r by (simp add: sync_def sync_body_def)
  have "prefix (trace ?w3) (trace (snd (sync w)))"
    unfolding fin by (simp add: set_isSyncing_def emit_def stamp_lastSync_frame)
  from events_since_extend [OF this] a show ?thesis by blast
qed

lemma world_two_pending_eval:
  "pending_ids world_two_pending = [''T1'', ''T2'']"
  "transactions (db world_two_pending) = [sale_T1, sale_T2]"
  "service world_two_pending = constructor True"
  "net world_two_pending = net_T1_refused"
  by (simp_all add: world_two_pending_def fresh_world_def saveTransaction_def
      db_saveTransaction_def db_getSyncState_def db_addPendingTransaction_def emit_def
      pending_ids_def sale_T1_def sale_T2_def)

subsection \<open>The attempts of one transaction within a pass\<close>

lemma attempts_of_append [simp]: "attempts_of i (xs @ ys) = attempts_of i xs @ attempts_of i ys"
  by (simp add: attempts_of_def map_filter_def)

lemma attempts_of_Nil [simp]: "attempts_of i [] = []"
  by (simp add: attempts_of_def map_filter_def)

lemma attempts_of_other: "event_tid e \<noteq> Some i \<Longrightarrow> attempts_of i [e] = []"
  by (cases e) (auto simp add: attempts_of_def map_filter_def)

lemma attempts_of_filter: "attempts_of i (filter attempt_or_sleep evs) = attempts_of i evs"
proof (induction evs)
  case Nil
  then show ?case by simp
next
  case (Cons e evs)
  then show ?case by (cases e) (simp_all add: attempts_of_def map_filter_def)
qed

lemma attempts_of_timeline: "attempts_of i (timeline i k n d) = [k..<k + n]"
proof (induction i k n d rule: timeline.induct)
  case (1 i k d)
  then show ?case by simp
next
  case (2 i k d)
  then show ?case by (simp add: attempts_of_def map_filter_def)
next
  case (3 i k n d)
  have "attempts_of i (timeline i k (Suc (Suc n)) d) = k # attempts_of i (timeline i (Suc k) (Suc n) d)"
    by (simp add: attempts_of_def map_filter_def)
  with 3 show ?case by (simp add: upt_rec [of k])
qed

lemma upload_no_attempts:
  "\<exists>evs. trace (snd (upload t w)) = trace w @ evs \<and> attempts_of i evs = []"
  by (simp add: upload_trace Let_def attempts_of_def map_filter_def)

text \<open>The loop of another transaction logs no attempt for \<open>i\<close> and keeps \<open>i\<close> pending.\<close>

lemma retry_loop_other_attempts:
  assumes "tid t \<noteq> i"
  shows "\<exists>evs. trace (retry_loop t r w) = trace w @ evs \<and> attempts_of i evs = []"
proof -
  let ?P = "\<lambda>w'::World. \<exists>evs. trace w' = trace w @ evs \<and> attempts_of i evs = []"
  have "?P (retry_loop t r w)"
  proof (rule retry_loop_preserves [where P = ?P])
    show "?P w" by simp
  next
    fix v :: World and e assume "?P v" "event_tid e = Some (tid t)"
    then show "?P (emit e v)" using assms by (auto simp add: emit_def attempts_of_other)
  next
    fix v :: World assume "?P v"
    then show "?P (snd (upload t v))" using upload_no_attempts [of t v i] by auto
  next
    fix v :: World assume "?P v"
    then show "?P (v\<lparr>db := db_removePendingTransaction (tid t) (db v)\<rparr>)" by simp
  next
    fix v :: World and ms assume "?P v"
    then show "?P (sleep ms v)" by (auto simp add: sleep_def emit_def attempts_of_other)
  qed
  then show ?thesis .
qed

lemma retry_loop_other_pending:
  assumes "tid t \<noteq> i" "i \<in> set (pending_ids w)"
  shows "i \<in> set (pending_ids (retry_loop t r w))"
  by (rule retry_loop_preserves [where P = "\<lambda>w'. i \<in> set (pending_ids w')"])
     (use assms in \<open>simp_all add: emit_def sleep_def upload_db pending_ids_def
        db_removePendingTransaction_def\<close>)

lemma drain_each_other_attempts:
  assumes "\<And>t. Some t \<in> set ts \<Longrightarrow> tid t \<noteq> i"
  shows "\<exists>evs. trace (drain_each ts w) = trace w @ evs \<and> attempts_of i evs = []"
proof -
  let ?P = "\<lambda>w'::World. \<exists>evs. trace w' = trace w @ evs \<and> attempts_of i evs = []"
  have "?P (drain_each ts w)"
  proof (rule drain_each_preserves [where P = ?P])
    show "?P w" by simp
  next
    fix v :: World and t assume "Some t \<in> set ts" "?P v"
    then show "?P (retry_loop t 0 v)"
      using retry_loop_other_attempts [OF assms, of t 0 v] by auto
  qed
  then show ?thesis .
qed

lemma drain_each_other_pending:
  assumes "\<And>t. Some t \<in> set ts \<Longrightarrow> tid t \<noteq> i" "i \<in> set (pending_ids w)"
  shows "i \<in> set (pending_ids (drain_each ts w))"
  by (rule drain_each_preserves [where P = "\<lambda>w'. i \<in> set (pending_ids w')"])
     (use assms in \<open>simp_all add: retry_loop_other_pending\<close>)

lemma drain_each_outcome_at: "outcome_at (net (drain_each ts w)) = outcome_at (net w)"
  by (rule drain_each_preserves [where P = "\<lambda>w'. outcome_at (net w') = outcome_at (net w)"])
     (simp_all add: retry_loop_outcome_at)

lemma never_delivered_cong:
  "outcome_at n' = outcome_at n \<Longrightarrow> never_delivered n' i = never_delivered n i"
  by (simp add: never_delivered_def)

lemma db_getTransaction_cong:
  "transactions d' = transactions d \<Longrightarrow> db_getTransaction i d' = db_getTransaction i d"
  by (simp add: db_getTransaction_def)

lemma world_two_pending_facts:
  "maxRetries (service world_two_pending) = 3"
  "retryDelay (service world_two_pending) = 5000"
  "isOnline (service world_two_pending)"
  "\<not> isSyncing (service world_two_pending)"
  "never_delivered (net world_two_pending) ''T1''"
  "outcome_at (net world_two_pending) (requests (net world_two_pending)) SelectProducts = Applied"
  "distinct (pending_ids world_two_pending)"
  "''T1'' \<in> set (pending_ids world_two_pending)"
  "''T2'' \<in> set (pending_ids world_two_pending)"
  "db_getTransaction ''T1'' (db world_two_pending) = Some sale_T1"
  "db_getTransaction ''T2'' (db world_two_pending) \<noteq> None"
  by (simp_all add: world_two_pending_eval constructor_def never_delivered_def net_T1_refused_def
      db_getTransaction_def sale_T1_def sale_T2_def)

lemma syncTransactions_private_keeps_pending:
  assumes "never_delivered (net w) i" "i \<in> set (pending_ids w)"
  shows "i \<in> set (pending_ids (syncTransactions_private w))"
proof -
  let ?P = "\<lambda>w'::World. i \<in> set (pending_ids w') \<and> never_delivered (net w') i"
  have "?P (drain_each ts w)" for ts
  proof (rule drain_each_preserves [where P = ?P])
    show "?P w" using assms by simp
  next
    fix v :: World and t assume v: "?P v"
    show "?P (retry_loop t 0 v)"
    proof (cases "tid t = i")
      case True
      with v retry_loop_all_fail [of v t 0] have "db (retry_loop t 0 v) = db v" by simp
      with v show ?thesis
        using never_delivered_cong [OF retry_loop_outcome_at [of t 0 v], of i]
        by (simp add: pending_ids_def)
    next
      case False
      with v show ?thesis
        using never_delivered_cong [OF retry_loop_outcome_at [of t 0 v], of i]
        by (simp add: retry_loop_other_pending)
    qed
  qed
  then show ?thesis by (simp add: syncTransactions_private_def Let_def)
qed

lemma sync_keeps_pending:
  assumes "never_delivered (net w) i" "i \<in> set (pending_ids w)"
  shows "i \<in> set (pending_ids (snd (sync w)))"
proof (cases "\<not> isOnline (service w) \<or> isSyncing (service w)")
  case True
  with assms show ?thesis by (simp add: sync_skips emit_def pending_ids_def)
next
  case False
  let ?w1 = "set_isSyncing True w"
  obtain r w2 where sp: "syncProducts True ?w1 = (r, w2)" by (cases "syncProducts True ?w1")
  have w2: "never_delivered (net w2) i" "i \<in> set (pending_ids w2)"
    using syncProducts_frame(2,5) [of True ?w1] sp assms
    by (simp_all add: set_isSyncing_def pending_ids_def never_delivered_def)
  show ?thesis
  proof (cases r)
    case (Inl e)
    with False sp w2 show ?thesis
      by (simp add: sync_def sync_body_def set_isSyncing_def emit_def pending_ids_def)
  next
    case (Inr u)
    have "i \<in> set (pending_ids (stamp_lastSync (syncTransactions_private w2)))"
      using syncTransactions_private_keeps_pending [OF w2]
      by (simp add: pending_ids_def stamp_lastSync_frame)
    with False sp Inr show ?thesis
      by (simp add: sync_def sync_body_def set_isSyncing_def emit_def pending_ids_def)
  qed
qed

subsection \<open>The product cache\<close>

lemma put_fresh: "key x \<notin> key ` set ys \<Longrightarrow> put key x ys = ys @ [x]"
  by (induction ys) auto

lemma fold_put_distinct:
  "distinct (map key (acc @ ps)) \<Longrightarrow> fold (put key) ps acc = acc @ ps"
proof (induction ps arbitrary: acc)
  case Nil
  then show ?case by simp
next
  case (Cons p ps)
  from Cons.prems have "key p \<notin> key ` set acc" by auto
  then have "put key p acc = acc @ [p]" by (rule put_fresh)
  moreover from Cons.prems have "distinct (map key ((acc @ [p]) @ ps))" by simp
  ultimately show ?case using Cons.IH [of "acc @ [p]"] by simp
qed

lemma products_fold_saveProduct:
  "products (fold db_saveProduct ps d) = fold (put pid) ps (products d)"
  by (induction ps arbitrary: d) (simp_all add: db_saveProduct_def)

lemma world_cache_AB_remote_BC_facts:
  "products (db world_cache_AB_remote_BC) = [product_A, product_B]"
  "remote_products (supabase world_cache_AB_remote_BC) = [product_B, product_C]"
  "outcome_at (net world_cache_AB_remote_BC) (requests (net world_cache_AB_remote_BC))
     SelectProducts = Applied"
  by (simp_all add: world_cache_AB_remote_BC_def fresh_world_def remote_with_def net_always_def
      db_saveProducts_def db_saveProduct_def product_A_def product_B_def)

lemma world_stale_cache_facts:
  "products (db world_stale_cache) = [product_A, product_B]"
  "remote_products (supabase world_stale_cache) = []"
  "outcome_at (net world_stale_cache) (requests (net world_stale_cache)) SelectProducts = Applied"
  by (simp_all add: world_stale_cache_def fresh_world_def remote_with_def net_always_def
      db_saveProducts_def db_saveProduct_def product_A_def product_B_def)

subsection \<open>The pending set is kept right\<close>

lemma confirmed_emit:
  "confirmed (emit e w) = confirmed w @ (case synced_id e of None \<Rightarrow> [] | Some i \<Rightarrow> [i])"
  by (simp add: confirmed_def emit_def map_filter_def split: option.splits)

lemma confirmed_upload: "confirmed (snd (upload t w)) = confirmed w"
  by (simp add: confirmed_def upload_trace Let_def map_filter_def)

lemma consistent_cong:
  assumes "pending_ids w' = pending_ids w" "stored_ids w' = stored_ids w"
    "confirmed w' = confirmed w"
  shows "consistent w' = consistent w"
  using assms by (simp add: consistent_def pending_correct_def)

lemma retry_loop_consistent:
  assumes "consistent w" "tid t \<in> set (stored_ids w)"
  shows "consistent (retry_loop t r w) \<and> stored_ids (retry_loop t r w) = stored_ids w"
proof -
  let ?P = "\<lambda>w'::World. consistent w' \<and> stored_ids w' = stored_ids w"
  show ?thesis
  proof (rule retry_loop_invariant [where P = ?P])
    show "?P w" using assms by simp
  next
    fix v :: World and e
    assume "?P v" "event_tid e = Some (tid t)" "synced_id e = None"
    then show "?P (emit e v)"
      using consistent_cong [of "emit e v" v]
      by (simp add: confirmed_emit) (simp add: emit_def pending_ids_def stored_ids_def)
  next
    fix v :: World assume "?P v"
    then show "?P (snd (upload t v))"
      using consistent_cong [of "snd (upload t v)" v]
      by (simp add: confirmed_upload pending_ids_def stored_ids_def upload_db)
  next
    fix v :: World assume v: "?P v"
    let ?v' = "emit (LogSynced (tid t)) (v\<lparr>db := db_removePendingTransaction (tid t) (db v)\<rparr>)"
    have "set (pending_ids ?v') = set (pending_ids v) - {tid t}"
      "stored_ids ?v' = stored_ids v"
      "set (confirmed ?v') = insert (tid t) (set (confirmed v))"
      by (auto simp add: emit_def pending_ids_def stored_ids_def confirmed_def
          db_removePendingTransaction_def map_filter_def)
    with v assms(2) show "?P ?v'"
      by (auto simp add: consistent_def pending_correct_def)
  next
    fix v :: World and ms assume "?P v"
    then show "?P (sleep ms v)"
      using consistent_cong [of "sleep ms v" v]
      by (simp add: sleep_def confirmed_def emit_def pending_ids_def stored_ids_def map_filter_def)
  qed
qed

lemma drain_each_consistent:
  assumes "consistent w" "\<And>t. Some t \<in> set ts \<Longrightarrow> tid t \<in> set (stored_ids w)"
  shows "consistent (drain_each ts w) \<and> stored_ids (drain_each ts w) = stored_ids w"
proof (rule drain_each_preserves
    [where P = "\<lambda>w'::World. consistent w' \<and> stored_ids w' = stored_ids w"])
  show "consistent w \<and> stored_ids w = stored_ids w" using assms by simp
next
  fix v :: World and t
  assume "Some t \<in> set ts" "consistent v \<and> stored_ids v = stored_ids w"
  then show "consistent (retry_loop t 0 v) \<and> stored_ids (retry_loop t 0 v) = stored_ids w"
    using retry_loop_consistent [of v t 0] assms(2) by simp
qed

lemma syncTransactions_private_consistent:
  assumes "consistent w"
  shows "consistent (syncTransactions_private w) \<and>
         stored_ids (syncTransactions_private w) = stored_ids w"
  unfolding syncTransactions_private_def Let_def
proof (rule drain_each_consistent [OF assms])
  fix t
  assume "Some t \<in> set (map (\<lambda>i. db_getTransaction i (db w))
                         (pendingTransactions (db_getSyncState (db w))))"
  then obtain i where "db_getTransaction i (db w) = Some t" by auto
  then show "tid t \<in> set (stored_ids w)"
    using db_getTransaction_stored by (force simp add: stored_ids_def)
qed

lemma syncProducts_consistent:
  "consistent (snd (syncProducts b w)) = consistent w"
  "stored_ids (snd (syncProducts b w)) = stored_ids w"
  by (rule consistent_cong)
     (simp_all add: pending_ids_def stored_ids_def confirmed_def syncProducts_frame map_filter_def)

lemma stamp_lastSync_consistent:
  "consistent (stamp_lastSync w) = consistent w"
  "stored_ids (stamp_lastSync w) = stored_ids w"
  by (rule consistent_cong)
     (simp_all add: pending_ids_def stored_ids_def confirmed_def stamp_lastSync_frame)

lemma set_flags_consistent:
  "consistent (set_isSyncing b w) = consistent w"
  "consistent (set_isOnline b w) = consistent w"
  "stored_ids (set_isSyncing b w) = stored_ids w"
  "stored_ids (set_isOnline b w) = stored_ids w"
  by (simp_all add: consistent_def pending_correct_def pending_ids_def stored_ids_def
      confirmed_def set_isSyncing_def set_isOnline_def)

lemma emit_unsynced_consistent:
  assumes "synced_id e = None"
  shows "consistent (emit e w) = consistent w" "stored_ids (emit e w) = stored_ids w"
  using assms
  by (simp_all add: consistent_def pending_correct_def pending_ids_def stored_ids_def
      confirmed_emit) (simp_all add: emit_def)

lemma drain_stage_consistent:
  assumes "consistent w"
  shows "consistent (emit LogSyncCompleted (stamp_lastSync (syncTransactions_private w))) \<and>
         stored_ids (emit LogSyncCompleted (stamp_lastSync (syncTransactions_private w))) =
           stored_ids w"
  using syncTransactions_private_consistent [OF assms]
  by (simp add: emit_unsynced_consistent stamp_lastSync_consistent)

lemma sync_consistent:
  assumes "consistent w"
  shows "consistent (snd (sync w)) \<and> stored_ids (snd (sync w)) = stored_ids w"
proof (cases "\<not> isOnline (service w) \<or> isSyncing (service w)")
  case True
  with assms show ?thesis by (simp add: sync_skips emit_unsynced_consistent)
next
  case False
  let ?w1 = "set_isSyncing True w"
  obtain r w2 where sp: "syncProducts True ?w1 = (r, w2)" by (cases "syncProducts True ?w1")
  have w2: "consistent w2" "stored_ids w2 = stored_ids w"
    using syncProducts_consistent [of True ?w1] sp assms by (simp_all add: set_flags_consistent)
  show ?thesis
  proof (cases r)
    case (Inl e)
    with False sp w2 show ?thesis
      by (simp add: sync_def sync_body_def set_flags_consistent emit_unsynced_consistent)
  next
    case (Inr u)
    with False sp w2 drain_stage_consistent [OF w2(1)] show ?thesis
      by (simp add: sync_def sync_body_def set_flags_consistent)
  qed
qed

lemma syncTransactions_consistent:
  assumes "consistent w"
  shows "consistent (snd (syncTransactions w)) \<and>
         stored_ids (snd (syncTransactions w)) = stored_ids w"
  using assms drain_stage_consistent [of "set_isSyncing True w"]
  by (simp add: syncTransactions_def set_flags_consistent)

lemma set_map_put: "set (map key (put key x ys)) = insert (key x) (set (map key ys))"
  by (induction ys) auto

lemma pending_ids_addPending:
  "set (pendingTransactions (syncState (db_addPendingTransaction i d))) =
     insert i (set (pendingTransactions (syncState d)))"
  by (auto simp add: db_addPendingTransaction_def)

lemma saveTransaction_consistent:
  assumes c: "consistent w" and fresh: "tid t \<notin> set (stored_ids w)"
  shows "consistent (snd (saveTransaction t w)) \<and>
         set (stored_ids (snd (saveTransaction t w))) = insert (tid t) (set (stored_ids w))"
proof -
  let ?w0 = "w\<lparr>db := db_saveTransaction t (db w)\<rparr>"
  from c fresh have np: "tid t \<notin> set (pending_ids w)" and nc: "tid t \<notin> set (confirmed w)"
    and pc: "set (pending_ids w) = set (stored_ids w) - set (confirmed w)"
    and cs: "set (confirmed w) \<subseteq> set (stored_ids w)"
    by (auto simp add: consistent_def pending_correct_def)
  have w0: "set (stored_ids ?w0) = insert (tid t) (set (stored_ids w))"
    "pending_ids ?w0 = pending_ids w" "confirmed ?w0 = confirmed w"
    by (simp_all add: stored_ids_def pending_ids_def confirmed_def db_saveTransaction_def
        set_map_put del: set_map)
  obtain r w1 where up: "upload t ?w0 = (r, w1)" by (cases "upload t ?w0")
  have w1: "db w1 = db ?w0" "confirmed w1 = confirmed w"
    using upload_db [of t ?w0] confirmed_upload [of t ?w0] up w0 by simp_all
  let ?queued = "\<lambda>v::World. emit (LogAddedToPending (tid t))
                   (v\<lparr>db := db_addPendingTransaction (tid t) (db v)\<rparr>)"
  have queued: "consistent v' \<and> set (stored_ids v') = insert (tid t) (set (stored_ids w))"
    if "db v = db ?w0" "confirmed v = confirmed w"
      "trace v' = trace v @ [e]" "synced_id e = None"
      "db v' = db_addPendingTransaction (tid t) (db v)" for v v' :: World and e
  proof -
    have "set (pending_ids v') = insert (tid t) (set (pending_ids w))"
      using that w0 by (simp add: pending_ids_def pending_ids_addPending)
    moreover have "set (stored_ids v') = insert (tid t) (set (stored_ids w))"
      using that w0 by (simp add: stored_ids_def)
    moreover have "confirmed v' = confirmed w"
      using that by (simp add: confirmed_def map_filter_def)
    ultimately show ?thesis using pc cs nc
      by (auto simp add: consistent_def pending_correct_def)
  qed
  show ?thesis
  proof (cases "isOnline_stored (syncState (db w))")
    case False
    have "snd (saveTransaction t w) =
        emit (LogSavedOffline (tid t)) (?w0\<lparr>db := db_addPendingTransaction (tid t) (db ?w0)\<rparr>)"
      using False by (simp add: saveTransaction_def Let_def db_getSyncState_def db_saveTransaction_def)
    then show ?thesis
      using queued [of ?w0 "snd (saveTransaction t w)" "LogSavedOffline (tid t)"] w0
      by (simp add: emit_def)
  next
    case True
    show ?thesis
    proof (cases r)
      case (Inl e)
      have "snd (saveTransaction t w) =
          emit (LogAddedToPending (tid t)) (w1\<lparr>db := db_addPendingTransaction (tid t) (db w1)\<rparr>)"
        using True up Inl
        by (simp add: saveTransaction_def Let_def db_getSyncState_def db_saveTransaction_def)
      then show ?thesis
        using queued [of w1 "snd (saveTransaction t w)" "LogAddedToPending (tid t)"] w1
        by (simp add: emit_def)
    next
      case (Inr u)
      let ?w' = "snd (saveTransaction t w)"
      have fin: "?w' = (emit (LogSynced (tid t)) w1)
          \<lparr>db := db_updateSyncState
             (db_getSyncState (db ?w0)\<lparr>lastSync := Some (clock (emit (LogSynced (tid t)) w1))\<rparr>)
             (db (emit (LogSynced (tid t)) w1))\<rparr>"
        using True up Inr
        by (simp add: saveTransaction_def Let_def db_getSyncState_def db_saveTransaction_def)
      have "pending_ids ?w' = pending_ids w"
        unfolding fin using w0(2)
        by (simp add: pending_ids_def db_updateSyncState_def db_getSyncState_def)
      moreover have "set (stored_ids ?w') = insert (tid t) (set (stored_ids w))"
        unfolding fin using w0(1) w1(1)
        by (simp add: stored_ids_def db_updateSyncState_def emit_def)
      moreover have "set (confirmed ?w') = insert (tid t) (set (confirmed w))"
        unfolding fin using w1(2)
        by (simp add: confirmed_def emit_def map_filter_def)
      ultimately show ?thesis using pc cs np fresh
        by (auto simp add: consistent_def pending_correct_def)
    qed
  qed
qed

lemma exec_consistent:
  assumes "consistent w" "\<And>i. persisted_id x = Some i \<Longrightarrow> i \<notin> set (stored_ids w)"
  shows "consistent (exec x w) \<and>
         set (stored_ids (exec x w)) =
           set (stored_ids w) \<union> (case persisted_id x of None \<Rightarrow> {} | Some i \<Rightarrow> {i})"
proof (cases x)
  case (PersistTransaction t)
  with assms saveTransaction_consistent [of w t] show ?thesis by simp
next
  case Reconcile
  with assms sync_consistent [of w] show ?thesis by simp
next
  case DrainPending
  with assms syncTransactions_consistent [of w] show ?thesis by simp
next
  case OnlineEvent
  with assms sync_consistent [of "set_isOnline True w"] show ?thesis
    by (simp add: on_online_def set_flags_consistent)
next
  case OfflineEvent
  with assms show ?thesis by (simp add: on_offline_def set_flags_consistent)
next
  case (StoredFlagWritten b)
  with assms show ?thesis
    by (simp add: consistent_def pending_correct_def pending_ids_def stored_ids_def confirmed_def)
qed

lemma persisted_ids_Cons:
  "persisted_ids (x # xs) = (case persisted_id x of None \<Rightarrow> [] | Some i \<Rightarrow> [i]) @ persisted_ids xs"
  by (simp add: persisted_ids_def map_filter_def split: option.splits)

lemma run_consistent:
  "consistent w \<Longrightarrow> distinct (persisted_ids ops) \<Longrightarrow>
   set (persisted_ids ops) \<inter> set (stored_ids w) = {} \<Longrightarrow> consistent (run ops w)"
proof (induction ops arbitrary: w)
  case Nil
  then show ?case by simp
next
  case (Cons x xs)
  have fresh: "i \<notin> set (stored_ids w)" if "persisted_id x = Some i" for i
    using that Cons.prems(3) by (auto simp add: persisted_ids_Cons)
  from exec_consistent [OF Cons.prems(1) fresh]
  have c: "consistent (exec x w)"
    and s: "set (stored_ids (exec x w)) =
           set (stored_ids w) \<union> (case persisted_id x of None \<Rightarrow> {} | Some i \<Rightarrow> {i})"
    by simp_all
  have d: "distinct (persisted_ids xs)"
    using Cons.prems(2) by (simp add: persisted_ids_Cons)
  have "set (persisted_ids xs) \<inter> set (stored_ids (exec x w)) = {}"
    unfolding s using Cons.prems(2,3)
    by (auto simp add: persisted_ids_Cons split: option.splits)
  from Cons.IH [OF c d this] show ?case by simp
qed

lemma fresh_world_consistent: "consistent (fresh_world online flag r n)"
  by (simp add: consistent_def pending_correct_def pending_ids_def stored_ids_def confirmed_def
      fresh_world_def map_filter_def)

text \<open>Run the operations one whole call at a time, none overlapping another, from a
  terminal with an empty Local Store, and hand no transaction id to \<^verbatim>\<open>saveTransaction\<close>
  twice: then the pending set is exactly the set of stored transaction ids whose delivery
  the engine has not seen succeed.\<close>

lemma run_pending_correct:
  "distinct (persisted_ids ops) \<Longrightarrow> pending_correct (run ops (fresh_world online flag r n))"
proof -
  assume "distinct (persisted_ids ops)"
  moreover have "set (persisted_ids ops) \<inter> set (stored_ids (fresh_world online flag r n)) = {}"
    by (simp add: stored_ids_def fresh_world_def)
  ultimately have "consistent (run ops (fresh_world online flag r n))"
    using fresh_world_consistent run_consistent by blast
  then show ?thesis by (simp add: consistent_def)
qed

subsection \<open>The example runs\<close>

lemmas eval_defs = saveTransaction_def upload_def remote_defs db_saveTransaction_def
  db_getSyncState_def db_updateSyncState_def db_addPendingTransaction_def
  db_removePendingTransaction_def db_getTransaction_def fresh_world_def remote_with_def
  format_transaction_def format_item_def constructor_def

lemma world_T1_saved_twice_eval:
  "pending_ids world_T1_saved_twice = [''T1'']"
  "stored_ids world_T1_saved_twice = [''T1'']"
  "confirmed world_T1_saved_twice = [''T1'']"
  by (simp_all add: world_T1_saved_twice_def eval_defs net_signed_out_first_def sale_T1_def
      pending_ids_def stored_ids_def confirmed_def map_filter_def)

lemma world_T1_lost_answer_eval:
  "world_T1_lost_answer =
     \<lparr>service = constructor True,
      db = \<lparr>products = [], transactions = [sale_T1],
            syncState = \<lparr>lastSync = None, pendingTransactions = [''T1''],
                          isOnline_stored = False\<rparr>\<rparr>,
      supabase = remote_with [], net = net_lost_at 2, trace = [LogSavedOffline ''T1''],
      clock = 0\<rparr>"
  by (simp add: world_T1_lost_answer_def saveTransaction_def db_saveTransaction_def
      db_getSyncState_def db_addPendingTransaction_def fresh_world_def emit_def sale_T1_def)

lemma upload_delivery_events:
  "trace (snd (upload t w)) =
     trace w @ delivery_events (user_at (net w)) (outcome_at (net w)) (requests (net w)) (tid t)"
  by (simp add: upload_trace delivery_events_def Let_def)

lemma upload_requests_count:
  "requests (net (snd (upload t w))) =
     requests (net w) +
     length (delivery_events (user_at (net w)) (outcome_at (net w)) (requests (net w)) (tid t))"
  by (simp add: upload_requests delivery_events_def Let_def)

lemma retry_loop_user_at: "user_at (net (retry_loop t r w)) = user_at (net w)"
  by (rule retry_loop_preserves [where P = "\<lambda>w'. user_at (net w') = user_at (net w)"])
     (simp_all add: emit_def sleep_def upload_user_at)

lemma drain_each_user_at: "user_at (net (drain_each ts w)) = user_at (net w)"
  by (rule drain_each_preserves [where P = "\<lambda>w'. user_at (net w') = user_at (net w)"])
     (simp_all add: retry_loop_user_at)

lemma retry_loop_requests_mono: "requests (net w) \<le> requests (net (retry_loop t r w))"
  by (rule retry_loop_preserves [where P = "\<lambda>w'. requests (net w) \<le> requests (net w')"])
     (simp_all add: emit_def sleep_def upload_requests_count)

lemma drain_each_requests_mono: "requests (net w) \<le> requests (net (drain_each ts w))"
  by (rule drain_each_preserves [where P = "\<lambda>w'. requests (net w) \<le> requests (net w')"])
     (auto intro: order_trans retry_loop_requests_mono)

lemma retry_loop_failing_trace:
  "never_delivered (net w) (tid t) \<Longrightarrow>
   trace (retry_loop t r w) =
     trace w @
     failing_rounds (user_at (net w)) (outcome_at (net w)) (tid t) (maxRetries (service w))
       (retryDelay (service w)) (requests (net w)) (r + 1) (maxRetries (service w) - r)"
proof (induction t r w rule: retry_loop.induct)
  case (1 t retries w)
  let ?m = "maxRetries (service w)"
  let ?d = "retryDelay (service w)"
  let ?u = "user_at (net w)"
  let ?ans = "outcome_at (net w)"
  let ?k = "requests (net w)"
  let ?w0 = "emit (LogAttempting (tid t) (retries + 1)) w"
  let ?del = "delivery_events ?u ?ans ?k (tid t)"
  show ?case
  proof (cases "retries < ?m")
    case False
    then show ?thesis by (simp add: retry_loop.simps [of t retries w])
  next
    case True
    have fail0: "never_delivered (net ?w0) (tid t)" using "1.prems" by (simp add: emit_def)
    obtain res w1 where up: "upload t ?w0 = (res, w1)" by (cases "upload t ?w0")
    from upload_never_delivered [OF fail0] up obtain e where res: "res = Inl e" by auto
    have w1: "service w1 = service w" "user_at (net w1) = ?u" "outcome_at (net w1) = ?ans"
      "requests (net w1) = ?k + length ?del"
      "trace w1 = trace w @ LogAttempting (tid t) (retries + 1) # ?del"
      using upload_service [of t ?w0] upload_user_at [of t ?w0] upload_outcome_at [of t ?w0]
        upload_requests_count [of t ?w0] upload_delivery_events [of t ?w0] up
      by (simp_all add: emit_def)
    show ?thesis
    proof (cases "retries + 1 = ?m")
      case last: True
      let ?w2 = "emit (LogFailedAfter (tid t) ?m) w1"
      have eq: "retry_loop t retries w = retry_loop t (retries + 1) ?w2"
        using True up res last by (simp add: retry_loop.simps [of t retries w])
      have stop: "retry_loop t (retries + 1) ?w2 = ?w2"
        by (rule retry_loop_stop) (use last w1 in \<open>simp add: emit_def\<close>)
      have n: "?m - retries = Suc 0" using last by arith
      show ?thesis unfolding eq stop n using w1 by (simp add: emit_def)
    next
      case notlast: False
      let ?w2 = "sleep ?d (emit (LogRetrying (tid t) (retries + 2)) w1)"
      have eq: "retry_loop t retries w = retry_loop t (retries + 1) ?w2"
        using True up res notlast by (simp add: retry_loop.simps [of t retries w])
      have w2: "service ?w2 = service w" "user_at (net ?w2) = ?u" "outcome_at (net ?w2) = ?ans"
        "requests (net ?w2) = ?k + length ?del"
        "trace ?w2 = trace w @ LogAttempting (tid t) (retries + 1) # ?del
                       @ [LogRetrying (tid t) (retries + 2), Sleep ?d]"
        using w1 by (simp_all add: emit_def sleep_def)
      have fail2: "never_delivered (net ?w2) (tid t)"
        using "1.prems" w2(3) by (simp add: never_delivered_def)
      note IH = "1.IH"(2) [OF True up [symmetric] _ notlast fail2, unfolded res, OF refl]
      obtain n where n: "?m - retries = Suc (Suc n)" "?m - (retries + 1) = Suc n"
      proof
        show "?m - retries = Suc (Suc (?m - retries - 2))" using True notlast by arith
        show "?m - (retries + 1) = Suc (?m - retries - 2)" using True notlast by arith
      qed
      show ?thesis unfolding eq IH w2 n by simp
    qed
  qed
qed

lemma delivery_events_tid:
  "e \<in> set (delivery_events u ans k j) \<Longrightarrow> event_tid e = None \<or> event_tid e = Some j"
  by (auto simp add: delivery_events_def split: if_splits)

lemma delivery_events_no_attempt_or_sleep [simp]:
  "filter attempt_or_sleep (delivery_events u ans k j) = []"
  by (simp add: delivery_events_def)

lemma attempts_of_none: "\<forall>e \<in> set evs. event_tid e \<noteq> Some i \<Longrightarrow> attempts_of i evs = []"
proof (induction evs)
  case Nil
  then show ?case by simp
next
  case (Cons e evs)
  then have "attempts_of i [e] = []" by (simp add: attempts_of_other)
  moreover have "attempts_of i (e # evs) = attempts_of i [e] @ attempts_of i evs"
    using attempts_of_append [of i "[e]" evs] by simp
  ultimately show ?case using Cons by simp
qed

text \<open>The loop of another transaction logs and requests nothing about \<open>i\<close>.\<close>

lemma retry_loop_other_events:
  assumes "tid t \<noteq> i"
  shows "\<exists>evs. trace (retry_loop t r w) = trace w @ evs \<and> (\<forall>e \<in> set evs. event_tid e \<noteq> Some i)"
proof -
  let ?P = "\<lambda>w'::World. \<exists>evs. trace w' = trace w @ evs \<and> (\<forall>e \<in> set evs. event_tid e \<noteq> Some i)"
  have "?P (retry_loop t r w)"
  proof (rule retry_loop_preserves [where P = ?P])
    show "?P w" by simp
  next
    fix v :: World and e assume "?P v" "event_tid e = Some (tid t)"
    then show "?P (emit e v)" using assms by (auto simp add: emit_def)
  next
    fix v :: World assume "?P v"
    then obtain evs where evs: "trace v = trace w @ evs" "\<forall>e \<in> set evs. event_tid e \<noteq> Some i"
      by blast
    have "trace (snd (upload t v)) =
        trace w @ (evs @ delivery_events (user_at (net v)) (outcome_at (net v)) (requests (net v)) (tid t))"
      by (simp add: upload_delivery_events evs)
    moreover have "\<forall>e \<in> set (evs @ delivery_events (user_at (net v)) (outcome_at (net v))
        (requests (net v)) (tid t)). event_tid e \<noteq> Some i"
      using evs(2) assms delivery_events_tid by fastforce
    ultimately show "?P (snd (upload t v))" by blast
  next
    fix v :: World assume "?P v"
    then show "?P (v\<lparr>db := db_removePendingTransaction (tid t) (db v)\<rparr>)" by simp
  next
    fix v :: World and ms assume "?P v"
    then show "?P (sleep ms v)" by (auto simp add: sleep_def emit_def)
  qed
  then show ?thesis .
qed

lemma drain_each_other_events:
  assumes "\<And>t. Some t \<in> set ts \<Longrightarrow> tid t \<noteq> i"
  shows "\<exists>evs. trace (drain_each ts w) = trace w @ evs \<and> (\<forall>e \<in> set evs. event_tid e \<noteq> Some i)"
proof -
  let ?P = "\<lambda>w'::World. \<exists>evs. trace w' = trace w @ evs \<and> (\<forall>e \<in> set evs. event_tid e \<noteq> Some i)"
  have "?P (drain_each ts w)"
  proof (rule drain_each_preserves [where P = ?P])
    show "?P w" by simp
  next
    fix v :: World and t assume t: "Some t \<in> set ts" and "?P v"
    then obtain evs where evs: "trace v = trace w @ evs" "\<forall>e \<in> set evs. event_tid e \<noteq> Some i"
      by blast
    from retry_loop_other_events [OF assms [OF t], of 0 v]
    obtain evs' where evs': "trace (retry_loop t 0 v) = trace v @ evs'"
      "\<forall>e \<in> set evs'. event_tid e \<noteq> Some i" by blast
    have "trace (retry_loop t 0 v) = trace w @ (evs @ evs')" using evs evs' by simp
    moreover have "\<forall>e \<in> set (evs @ evs'). event_tid e \<noteq> Some i" using evs evs' by auto
    ultimately show "?P (retry_loop t 0 v)" by blast
  qed
  then show ?thesis .
qed

lemma failing_rounds_3:
  "failing_rounds u ans i 3 d k 1 3 =
     [LogAttempting i 1] @ delivery_events u ans k i @ [LogRetrying i 2, Sleep d] @
     [LogAttempting i 2] @ delivery_events u ans (k + length (delivery_events u ans k i)) i @
     [LogRetrying i 3, Sleep d] @
     [LogAttempting i 3] @
     delivery_events u ans
       (k + length (delivery_events u ans k i) +
        length (delivery_events u ans (k + length (delivery_events u ans k i)) i)) i @
     [LogFailedAfter i 3]"
proof -
  have "failing_rounds u ans i m d k (Suc 0) (Suc (Suc (Suc 0))) =
     [LogAttempting i (Suc 0)] @ delivery_events u ans k i @ [LogRetrying i (Suc (Suc 0)), Sleep d] @
     [LogAttempting i (Suc (Suc 0))] @
     delivery_events u ans (k + length (delivery_events u ans k i)) i @
     [LogRetrying i (Suc (Suc (Suc 0))), Sleep d] @
     [LogAttempting i (Suc (Suc (Suc 0)))] @
     delivery_events u ans
       (k + length (delivery_events u ans k i) +
        length (delivery_events u ans (k + length (delivery_events u ans k i)) i)) i @
     [LogFailedAfter i m]" for m
    by simp
  from this [of 3] show ?thesis
    by (simp only: numeral_3_eq_3 numeral_2_eq_2 One_nat_def)
qed

subsection \<open>A first attempt really goes to the Remote Store\<close>

lemma remote_transactions_insert_items [simp]:
  "remote_transactions (insert_items rows r) = remote_transactions r"
  by (induction rows r rule: insert_items.induct) simp_all

lemma image_set_put: "key ` set (put key x ys) = insert (key x) (key ` set ys)"
  by (induction ys) auto

lemma auth_getUser_frame:
  "fst (auth_getUser w) = user_at (net w) (requests (net w))"
  "remote_row_ids (snd (auth_getUser w)) = remote_row_ids w"
  "requests (net (snd (auth_getUser w))) = Suc (requests (net w))"
  "outcome_at (net (snd (auth_getUser w))) = outcome_at (net w)"
  by (simp_all add: remote_defs remote_row_ids_def)

lemma upsert_transaction_rows:
  "remote_row_ids (snd (upsert_transaction row w)) =
     remote_row_ids w \<union>
     (if outcome_at (net w) (requests (net w)) (UpsertTransaction (row_id row)) \<noteq> Refused
      then {row_id row} else {})"
  by (simp add: remote_defs remote_row_ids_def image_set_put)

lemma upsert_items_rows:
  "remote_row_ids (snd (upsert_items i rows w)) = remote_row_ids w"
  by (simp add: remote_defs remote_row_ids_def)

lemma upload_remote_row_ids:
  "remote_row_ids (snd (upload t w)) =
     remote_row_ids w \<union>
     (if user_at (net w) (requests (net w)) \<noteq> None \<and>
         outcome_at (net w) (Suc (requests (net w))) (UpsertTransaction (tid t)) \<noteq> Refused
      then {tid t} else {})"
proof -
  obtain u w1 where g: "auth_getUser w = (u, w1)" by (cases "auth_getUser w")
  have w1: "u = user_at (net w) (requests (net w))" "remote_row_ids w1 = remote_row_ids w"
    "requests (net w1) = Suc (requests (net w))" "outcome_at (net w1) = outcome_at (net w)"
    using auth_getUser_frame [of w] g by simp_all
  show ?thesis
  proof (cases u)
    case None
    with g w1 show ?thesis by (simp add: upload_def)
  next
    case (Some user)
    let ?row = "format_transaction t user"
    obtain e1 w2 where t1: "upsert_transaction ?row w1 = (e1, w2)"
      by (cases "upsert_transaction ?row w1")
    obtain e2 w3 where t2: "upsert_items (tid t) (map (format_item t) (items t)) w2 = (e2, w3)"
      by (cases "upsert_items (tid t) (map (format_item t) (items t)) w2")
    have r2: "remote_row_ids w2 = remote_row_ids w \<union>
        (if outcome_at (net w) (Suc (requests (net w))) (UpsertTransaction (tid t)) \<noteq> Refused
         then {tid t} else {})"
      using upsert_transaction_rows [of ?row w1] t1 w1 by (simp add: format_transaction_def)
    have r3: "remote_row_ids w3 = remote_row_ids w2"
      using upsert_items_rows [of "tid t" "map (format_item t) (items t)" w2] t2 by simp
    from g Some t1 t2 w1(1) r2 r3 show ?thesis
      by (cases e1; cases e2) (simp_all add: upload_def)
  qed
qed

lemma retry_loop_keeps_rows:
  "i \<in> remote_row_ids w \<Longrightarrow> i \<in> remote_row_ids (retry_loop t r w)"
  by (rule retry_loop_preserves [where P = "\<lambda>w'. i \<in> remote_row_ids w'"])
     (simp_all add: upload_remote_row_ids, simp_all add: remote_row_ids_def emit_def sleep_def)

lemma drain_each_keeps_rows:
  "i \<in> remote_row_ids w \<Longrightarrow> i \<in> remote_row_ids (drain_each ts w)"
  by (rule drain_each_preserves [where P = "\<lambda>w'. i \<in> remote_row_ids w'"])
     (simp_all add: retry_loop_keeps_rows)

text \<open>An attempt of \<open>i\<close> numbered \<open>a\<close> shows between two states: the log line, then the
  requests of a delivery of \<open>i\<close>; and if the server did not refuse the transaction row
  of that delivery, the Remote Store holds a row for \<open>i\<close> in the later state.\<close>

lemma retry_loop_first_delivery:
  assumes "r < maxRetries (service w)"
  shows "\<exists>post. trace (retry_loop t r w) =
           trace w @ LogAttempting (tid t) (r + 1) #
           delivery_events (user_at (net w)) (outcome_at (net w)) (requests (net w)) (tid t) @ post"
    and "user_at (net w) (requests (net w)) \<noteq> None \<Longrightarrow>
         outcome_at (net w) (Suc (requests (net w))) (UpsertTransaction (tid t)) \<noteq> Refused \<Longrightarrow>
         tid t \<in> remote_row_ids (retry_loop t r w)"
proof -
  let ?w0 = "emit (LogAttempting (tid t) (r + 1)) w"
  let ?del = "delivery_events (user_at (net w)) (outcome_at (net w)) (requests (net w)) (tid t)"
  obtain res w1 where up: "upload t ?w0 = (res, w1)" by (cases "upload t ?w0")
  have t1: "trace w1 = trace w @ LogAttempting (tid t) (r + 1) # ?del"
    using upload_delivery_events [of t ?w0] up by (simp add: emit_def)
  have r1: "tid t \<in> remote_row_ids w1"
    if "user_at (net w) (requests (net w)) \<noteq> None"
      "outcome_at (net w) (Suc (requests (net w))) (UpsertTransaction (tid t)) \<noteq> Refused"
    using upload_remote_row_ids [of t ?w0] up that by (simp add: emit_def)
  let ?ok = "emit (LogSynced (tid t)) (w1\<lparr>db := db_removePendingTransaction (tid t) (db w1)\<rparr>)"
  let ?a = "emit (LogFailedAfter (tid t) (maxRetries (service w))) w1"
  let ?b = "sleep (retryDelay (service w)) (emit (LogRetrying (tid t) (r + 2)) w1)"
  consider (ok) "retry_loop t r w = ?ok"
    | (a) "retry_loop t r w = retry_loop t (r + 1) ?a"
    | (b) "retry_loop t r w = retry_loop t (r + 1) ?b"
  proof (cases res)
    case (Inr u)
    with assms up have "retry_loop t r w = ?ok" by (simp add: retry_loop.simps [of t r w])
    then show ?thesis by (rule ok)
  next
    case (Inl e)
    show ?thesis
    proof (cases "r + 1 = maxRetries (service w)")
      case True
      with assms up Inl have "retry_loop t r w = retry_loop t (r + 1) ?a"
        by (simp add: retry_loop.simps [of t r w])
      then show ?thesis by (rule a)
    next
      case False
      with assms up Inl have "retry_loop t r w = retry_loop t (r + 1) ?b"
        by (simp add: retry_loop.simps [of t r w])
      then show ?thesis by (rule b)
    qed
  qed
  then have "(\<exists>post. trace (retry_loop t r w) = trace w1 @ post) \<and>
      (tid t \<in> remote_row_ids w1 \<longrightarrow> tid t \<in> remote_row_ids (retry_loop t r w))"
  proof cases
    case ok
    then show ?thesis by (simp add: emit_def remote_row_ids_def)
  next
    case a
    have "prefix (trace w1) (trace ?a)" by (simp add: emit_def)
    then have "prefix (trace w1) (trace (retry_loop t (r + 1) ?a))"
      using retry_loop_trace_prefix [of ?a t "r + 1"] by (meson prefix_order.trans)
    moreover have "tid t \<in> remote_row_ids (retry_loop t (r + 1) ?a)" if "tid t \<in> remote_row_ids w1"
      by (rule retry_loop_keeps_rows) (use that in \<open>simp add: remote_row_ids_def emit_def\<close>)
    ultimately show ?thesis unfolding a by (auto simp add: prefix_def)
  next
    case b
    have "prefix (trace w1) (trace ?b)" by (simp add: emit_def sleep_def)
    then have "prefix (trace w1) (trace (retry_loop t (r + 1) ?b))"
      using retry_loop_trace_prefix [of ?b t "r + 1"] by (meson prefix_order.trans)
    moreover have "tid t \<in> remote_row_ids (retry_loop t (r + 1) ?b)" if "tid t \<in> remote_row_ids w1"
      by (rule retry_loop_keeps_rows)
         (use that in \<open>simp add: remote_row_ids_def emit_def sleep_def\<close>)
    ultimately show ?thesis unfolding b by (auto simp add: prefix_def)
  qed
  then obtain post where post: "trace (retry_loop t r w) = trace w1 @ post"
    and keep: "tid t \<in> remote_row_ids w1 \<Longrightarrow> tid t \<in> remote_row_ids (retry_loop t r w)"
    by blast
  show "\<exists>post. trace (retry_loop t r w) =
           trace w @ LogAttempting (tid t) (r + 1) # ?del @ post"
    using post t1 by simp
  show "tid t \<in> remote_row_ids (retry_loop t r w)"
    if "user_at (net w) (requests (net w)) \<noteq> None"
      "outcome_at (net w) (Suc (requests (net w))) (UpsertTransaction (tid t)) \<noteq> Refused"
    using keep r1 that by blast
qed

lemma first_attempt_madeI:
  assumes "trace w' = trace w @ pre @ LogAttempting i 1 #
      delivery_events (user_at (net w)) (outcome_at (net w)) k i @ post"
    and "requests (net w) \<le> k"
    and "user_at (net w) k \<noteq> None \<Longrightarrow>
         outcome_at (net w) (Suc k) (UpsertTransaction i) \<noteq> Refused \<Longrightarrow> i \<in> remote_row_ids w'"
  shows "first_attempt_made w w' i"
proof -
  have "events_since w w' = pre @ LogAttempting i 1 #
      delivery_events (user_at (net w)) (outcome_at (net w)) k i @ post"
    by (rule events_since_append) (simp add: assms(1))
  with assms(2,3) show ?thesis by blast
qed

lemma first_attempt_made_extend:
  assumes m: "first_attempt_made w1 w2 i"
    and p1: "prefix (trace w) (trace w1)" and p2: "prefix (trace w1) (trace w2)"
    and p3: "prefix (trace w2) (trace w3)"
    and n: "user_at (net w1) = user_at (net w)" "outcome_at (net w1) = outcome_at (net w)"
      "requests (net w) \<le> requests (net w1)"
    and r: "i \<in> remote_row_ids w2 \<Longrightarrow> i \<in> remote_row_ids w3"
  shows "first_attempt_made w w3 i"
proof -
  from m obtain pre post k where k: "requests (net w1) \<le> k"
    and ev: "events_since w1 w2 = pre @ LogAttempting i 1 #
        delivery_events (user_at (net w1)) (outcome_at (net w1)) k i @ post"
    and row: "user_at (net w1) k \<noteq> None \<and>
         outcome_at (net w1) (Suc k) (UpsertTransaction i) \<noteq> Refused \<longrightarrow> i \<in> remote_row_ids w2"
    by blast
  from p1 obtain e1 where e1: "trace w1 = trace w @ e1" by (auto simp add: prefix_def)
  from p2 obtain e2 where e2: "trace w2 = trace w1 @ e2" by (auto simp add: prefix_def)
  from p3 obtain e3 where e3: "trace w3 = trace w2 @ e3" by (auto simp add: prefix_def)
  have "e2 = pre @ LogAttempting i 1 #
        delivery_events (user_at (net w)) (outcome_at (net w)) k i @ post"
    using ev e2 n by (simp add: events_since_def)
  then have "trace w3 = trace w @ (e1 @ pre) @ LogAttempting i 1 #
        delivery_events (user_at (net w)) (outcome_at (net w)) k i @ (post @ e3)"
    using e1 e2 e3 by simp
  then show ?thesis
    by (rule first_attempt_madeI) (use k n row r in auto)
qed

lemma drain_each_first_delivery:
  "Some t \<in> set ts \<Longrightarrow> 0 < maxRetries (service w) \<Longrightarrow>
   first_attempt_made w (drain_each ts w) (tid t)"
proof (induction ts w rule: drain_each.induct)
  case (1 w)
  then show ?case by simp
next
  case (2 ts w)
  then show ?case by simp
next
  case (3 t' ts w)
  let ?w1 = "retry_loop t' 0 w"
  let ?w2 = "drain_each ts ?w1"
  have m: "0 < maxRetries (service ?w1)" using "3.prems" by (simp add: retry_loop_service)
  show ?case
  proof (cases "t = t'")
    case True
    from retry_loop_first_delivery(1) [of 0 w t] "3.prems"(2)
    obtain post where post: "trace ?w1 = trace w @ LogAttempting (tid t) 1 #
        delivery_events (user_at (net w)) (outcome_at (net w)) (requests (net w)) (tid t) @ post"
      using True by auto
    obtain e where e: "trace ?w2 = trace ?w1 @ e"
      using drain_each_trace_prefix [of ?w1 ts] by (auto simp add: prefix_def)
    have "first_attempt_made w ?w2 (tid t)"
    proof (rule first_attempt_madeI [where pre = "[]" and post = "post @ e"
          and k = "requests (net w)"])
      show "trace ?w2 = trace w @ [] @ LogAttempting (tid t) 1 #
          delivery_events (user_at (net w)) (outcome_at (net w)) (requests (net w)) (tid t) @
          post @ e"
        using post e by simp
      show "requests (net w) \<le> requests (net w)" by simp
      show "tid t \<in> remote_row_ids ?w2"
        if "user_at (net w) (requests (net w)) \<noteq> None"
          "outcome_at (net w) (Suc (requests (net w))) (UpsertTransaction (tid t)) \<noteq> Refused"
        by (rule drain_each_keeps_rows)
           (use retry_loop_first_delivery(2) [of 0 w t] "3.prems"(2) that True in simp)
    qed
    then show ?thesis by simp
  next
    case False
    with "3.prems" have "Some t \<in> set ts" by simp
    from "3.IH" [OF this m] have "first_attempt_made ?w1 ?w2 (tid t)" .
    then have "first_attempt_made w ?w2 (tid t)"
      by (rule first_attempt_made_extend)
         (simp_all add: retry_loop_trace_prefix drain_each_trace_prefix retry_loop_user_at
            retry_loop_outcome_at retry_loop_requests_mono)
    then show ?thesis by simp
  qed
qed

lemma syncTransactions_private_first_delivery:
  assumes "0 < maxRetries (service w)" "i \<in> set (pending_ids w)" "db_getTransaction i (db w) \<noteq> None"
  shows "first_attempt_made w (syncTransactions_private w) i"
proof -
  from assms(3) obtain t where t: "db_getTransaction i (db w) = Some t" by blast
  then have "Some t \<in> set (map (\<lambda>i. db_getTransaction i (db w)) (pending_ids w))"
    using assms(2) by force
  from drain_each_first_delivery [OF this assms(1)] db_getTransaction_tid [OF t]
  show ?thesis
    by (simp add: syncTransactions_private_def Let_def db_getSyncState_def pending_ids_def)
qed

lemma syncProducts_requests:
  "requests (net (snd (syncProducts b w))) = Suc (requests (net w))"
  by (simp add: syncProducts_def select_products_def tick_def emit_def split: sum.splits)

lemma sync_first_delivery:
  assumes m: "0 < maxRetries (service w)"
    and g: "isOnline (service w)" "\<not> isSyncing (service w)"
    and f: "outcome_at (net w) (requests (net w)) SelectProducts = Applied"
    and i: "i \<in> set (pending_ids w)" "db_getTransaction i (db w) \<noteq> None"
  shows "first_attempt_made w (snd (sync w)) i"
proof -
  let ?w1 = "set_isSyncing True w"
  obtain r w2 where sp: "syncProducts True ?w1 = (r, w2)" by (cases "syncProducts True ?w1")
  have r: "r = Inr ()"
    using syncProducts_result [of True ?w1] sp f by (simp add: set_isSyncing_def)
  have w2: "service w2 = service ?w1" "syncState (db w2) = syncState (db w)"
    "transactions (db w2) = transactions (db w)" "prefix (trace w) (trace w2)"
    "outcome_at (net w2) = outcome_at (net w)" "user_at (net w2) = user_at (net w)"
    using syncProducts_frame(1-6) [of True ?w1] sp by (simp_all add: set_isSyncing_def)
  have q2: "requests (net w) \<le> requests (net w2)"
    using syncProducts_requests [of True ?w1] sp by (simp add: set_isSyncing_def)
  let ?w3 = "syncTransactions_private w2"
  have a: "first_attempt_made w2 ?w3 i"
    by (rule syncTransactions_private_first_delivery)
       (use m i w2 in \<open>simp_all add: set_isSyncing_def pending_ids_def db_getTransaction_def\<close>)
  have fin: "snd (sync w) = set_isSyncing False (emit LogSyncCompleted (stamp_lastSync ?w3))"
    using g sp r by (simp add: sync_def sync_body_def)
  from a show ?thesis
  proof (rule first_attempt_made_extend)
    show "prefix (trace w) (trace w2)" by (rule w2(4))
    show "prefix (trace w2) (trace ?w3)" by (rule syncTransactions_private_frame(4))
    show "prefix (trace ?w3) (trace (snd (sync w)))"
      unfolding fin by (simp add: set_isSyncing_def emit_def stamp_lastSync_frame)
    show "user_at (net w2) = user_at (net w)" "outcome_at (net w2) = outcome_at (net w)"
      "requests (net w) \<le> requests (net w2)" by (rule w2(6), rule w2(5), rule q2)
    show "i \<in> remote_row_ids (snd (sync w))" if "i \<in> remote_row_ids ?w3"
      unfolding fin using that
      by (simp add: remote_row_ids_def set_isSyncing_def emit_def stamp_lastSync_def Let_def)
  qed
qed

lemma world_two_pending_record:
  "world_two_pending =
     \<lparr>service = constructor True,
      db = \<lparr>products = [], transactions = [sale_T1, sale_T2],
            syncState = \<lparr>lastSync = None, pendingTransactions = [''T1'', ''T2''],
                          isOnline_stored = False\<rparr>\<rparr>,
      supabase = remote_with [], net = net_T1_refused,
      trace = [LogSavedOffline ''T1'', LogSavedOffline ''T2''], clock = 0\<rparr>"
  by (simp add: world_two_pending_def saveTransaction_def db_saveTransaction_def
      db_getSyncState_def db_addPendingTransaction_def fresh_world_def emit_def sale_T1_def
      sale_T2_def)

lemma world_two_pending_pass_events:
  "events_since world_two_pending (syncTransactions_private world_two_pending) =
     [LogAttempting ''T1'' 1, Request GetUser, Request (UpsertTransaction ''T1''),
      LogRetrying ''T1'' 2, Sleep 5000,
      LogAttempting ''T1'' 2, Request GetUser, Request (UpsertTransaction ''T1''),
      LogRetrying ''T1'' 3, Sleep 5000,
      LogAttempting ''T1'' 3, Request GetUser, Request (UpsertTransaction ''T1''),
      LogFailedAfter ''T1'' 3,
      LogAttempting ''T2'' 1, Request GetUser, Request (UpsertTransaction ''T2''),
      Request (UpsertItems ''T2''), LogSynced ''T2'']"
  by (simp add: world_two_pending_record eval_defs net_T1_refused_def sale_T1_def sale_T2_def
      syncTransactions_private_def retry_loop.simps sleep_def events_since_def)

subsection \<open>Calls as tasks\<close>

declare finish.simps [simp del]

lemma finish_SyncStamp:
  "finish SyncStamp w = set_isSyncing False (emit LogSyncCompleted (stamp_lastSync w))"
  by (simp add: finish.simps [of SyncStamp])

text \<open>The attempts of one transaction, run to their end, are the retry loop.\<close>

lemma finish_SyncAttempt:
  "finish (SyncAttempt t retries ts) w = finish (SyncDrain ts) (retry_loop t retries w)"
proof (induction t retries w rule: retry_loop.induct)
  case (1 t retries w)
  let ?w0 = "emit (LogAttempting (tid t) (retries + 1)) w"
  show ?case
  proof (cases "retries < maxRetries (service w)")
    case False
    then show ?thesis
      by (simp add: finish.simps [of "SyncAttempt t retries ts"] retry_loop.simps [of t retries])
  next
    case True
    obtain r v where up: "upload t ?w0 = (r, v)" by (cases "upload t ?w0")
    then have sv: "service v = service w"
      using upload_service [of t ?w0] by (simp add: emit_def)
    show ?thesis
    proof (cases r)
      case (Inr u)
      with True up show ?thesis
        by (simp add: finish.simps [of "SyncAttempt t retries ts"]
            retry_loop.simps [of t retries])
    next
      case (Inl e)
      show ?thesis
      proof (cases "retries + 1 = maxRetries (service w)")
        case last: True
        let ?v1 = "emit (LogFailedAfter (tid t) (maxRetries (service w))) v"
        from last sv have "\<not> retries + 1 < maxRetries (service ?v1)"
          by (simp add: emit_def)
        then have "retry_loop t (retries + 1) ?v1 = ?v1" by (rule retry_loop_stop)
        with True up Inl last show ?thesis
          by (simp add: finish.simps [of "SyncAttempt t retries ts"]
              retry_loop.simps [of t retries])
      next
        case more: False
        note IH = "1.IH"(2) [OF True up [symmetric] Inl more]
        from True up Inl more IH show ?thesis
          by (simp add: finish.simps [of "SyncAttempt t retries ts"]
              retry_loop.simps [of t retries])
      qed
    qed
  qed
qed

lemma finish_SyncDrain:
  "finish (SyncDrain ts) w =
     set_isSyncing False (emit LogSyncCompleted (stamp_lastSync (drain_each ts w)))"
proof (induction ts w rule: drain_each.induct)
  case (1 w)
  show ?case by (simp add: finish.simps [of "SyncDrain []"] finish_SyncStamp)
next
  case (2 ts w)
  then show ?case by (simp add: finish.simps [of "SyncDrain (None # ts)"])
next
  case (3 t ts w)
  then show ?case
    by (simp add: finish.simps [of "SyncDrain (Some t # ts)"] finish_SyncAttempt)
qed

lemma finish_SyncLoad:
  "finish SyncLoad w =
     set_isSyncing False (emit LogSyncCompleted (stamp_lastSync (syncTransactions_private w)))"
  by (simp add: finish.simps [of SyncLoad] finish_SyncDrain syncTransactions_private_def Let_def)

lemma finish_SyncRefresh:
  "finish SyncRefresh w =
     (case sync_body w of
        (Inl e, w1) \<Rightarrow> set_isSyncing False (emit LogSyncFailed w1)
      | (Inr _, w1) \<Rightarrow> set_isSyncing False w1)"
proof -
  obtain r w1 where sp: "syncProducts True w = (r, w1)" by (cases "syncProducts True w")
  then show ?thesis
    by (cases r)
       (simp_all add: finish.simps [of SyncRefresh] sync_body_def finish_SyncLoad
          set_isSyncing_def emit_def)
qed

text \<open>The three operations are their first step followed by the task run to its end.\<close>

lemma sync_as_task:
  "sync w = (Inr (), case sync_call w of (None, w1) \<Rightarrow> w1 | (Some k, w1) \<Rightarrow> finish k w1)"
proof (cases "\<not> isOnline (service w) \<or> isSyncing (service w)")
  case True
  then show ?thesis by (auto simp add: sync_def sync_call_def)
next
  case False
  obtain r w1 where b: "sync_body (set_isSyncing True w) = (r, w1)"
    by (cases "sync_body (set_isSyncing True w)")
  with False show ?thesis
    by (cases r) (simp_all add: sync_def sync_call_def finish_SyncRefresh)
qed

lemma syncTransactions_as_task:
  "syncTransactions w =
     (case syncTransactions_call w of
        (Inl e, w1) \<Rightarrow> (Inl e, w1)
      | (Inr k, w1) \<Rightarrow> (Inr (), finish k w1))"
  by (simp add: syncTransactions_def syncTransactions_call_def finish_SyncLoad)

lemma saveTransaction_as_task:
  "saveTransaction t w =
     (case saveTransaction_read t w of (state, w0) \<Rightarrow> saveTransaction_push t state w0)"
proof -
  obtain r w1 where up: "upload t (w\<lparr>db := db_saveTransaction t (db w)\<rparr>) = (r, w1)"
    by (cases "upload t (w\<lparr>db := db_saveTransaction t (db w)\<rparr>)")
  then show ?thesis
    by (cases r)
       (simp_all add: saveTransaction_def saveTransaction_read_def saveTransaction_push_def
          Let_def)
qed

subsection \<open>At most one pass in flight\<close>

lemma saveTransaction_push_service:
  "service (snd (saveTransaction_push t state w)) = service w"
proof -
  obtain r w1 where up: "upload t w = (r, w1)" by (cases "upload t w")
  then have "service w1 = service w" using upload_service [of t w] by simp
  with up show ?thesis
    by (cases r) (simp_all add: saveTransaction_push_def Let_def emit_def)
qed

text \<open>A resumed pass either goes on, holding the guard as before, or ends and releases
  it; a resumed save leaves the guard alone.\<close>

lemma resume_guard:
  "resume k w = (k', w1) \<Longrightarrow>
   (case k' of
      None \<Rightarrow> (if is_pass k then \<not> isSyncing (service w1)
                else isSyncing (service w1) = isSyncing (service w))
    | Some k2 \<Rightarrow> is_pass k \<and> is_pass k2 \<and> isSyncing (service w1) = isSyncing (service w))"
proof (induction k w rule: resume.induct)
  case (1 w)
  obtain r v where sp: "syncProducts True w = (r, v)" by (cases "syncProducts True w")
  then have "service v = service w" using syncProducts_frame(1) [of True w] by simp
  with 1 sp show ?case by (cases r) (auto simp add: set_isSyncing_def emit_def)
next
  case (6 t retries ts w)
  obtain r v where up: "upload t (emit (LogAttempting (tid t) (retries + 1)) w) = (r, v)"
    by (cases "upload t (emit (LogAttempting (tid t) (retries + 1)) w)")
  then have "service v = service w"
    using upload_service [of t "emit (LogAttempting (tid t) (retries + 1)) w"]
    by (simp add: emit_def)
  with 6 up show ?case
    by (cases r) (auto simp add: emit_def sleep_def split: if_splits)
next
  case (8 t state w)
  then show ?case by (auto simp add: saveTransaction_push_service)
qed (auto simp add: set_isSyncing_def)

lemma guarded_spawn_sync_call:
  assumes "guarded s" "isSyncing (service w) = isSyncing (service (world s))"
  shows "guarded (case sync_call w of (k, w1) \<Rightarrow> spawn k w1 s)"
  using assms
  by (auto simp add: guarded_def passes_in_flight_def sync_call_def spawn_def emit_def
      set_isSyncing_def)

lemma filter_at_most_one:
  assumes "length (filter P xs) \<le> 1" "n < length xs" "P (xs ! n)"
  shows "filter P (take n xs) = []" "filter P (drop (Suc n) xs) = []"
proof -
  have "xs = take n xs @ xs ! n # drop (Suc n) xs"
    using assms(2) by (simp add: id_take_nth_drop)
  then have "filter P xs = filter P (take n xs) @ xs ! n # filter P (drop (Suc n) xs)"
    using assms(3) by (metis filter.simps(2) filter_append)
  with assms(1) show "filter P (take n xs) = []" "filter P (drop (Suc n) xs) = []"
    by (cases "filter P (take n xs)"; simp)+
qed

lemma filter_skip_nth:
  assumes "n < length xs" "\<not> P (xs ! n)"
  shows "filter P (take n xs @ drop (Suc n) xs) = filter P xs"
proof -
  have "xs = take n xs @ xs ! n # drop (Suc n) xs"
    using assms(1) by (simp add: id_take_nth_drop)
  then have "filter P xs = filter P (take n xs @ xs ! n # drop (Suc n) xs)" by simp
  with assms(2) show ?thesis by simp
qed

lemma step_guarded: "guarded s \<Longrightarrow> guarded (step a s)"
proof (cases a)
  case CallSync
  assume "guarded s"
  with CallSync guarded_spawn_sync_call [of s "world s"] show ?thesis by simp
next
  case Online
  assume "guarded s"
  with Online guarded_spawn_sync_call [of s "set_isOnline True (world s)"] show ?thesis
    by (simp add: set_isOnline_def)
next
  case Offline
  assume "guarded s"
  with Offline show ?thesis
    by (simp add: guarded_def passes_in_flight_def set_isOnline_def)
next
  case CallSyncTransactions
  assume "guarded s"
  with CallSyncTransactions show ?thesis
    by (auto simp add: guarded_def passes_in_flight_def syncTransactions_call_def spawn_def
        set_isSyncing_def)
next
  case (CallSaveTransaction t)
  assume "guarded s"
  with CallSaveTransaction show ?thesis
    by (simp add: guarded_def passes_in_flight_def saveTransaction_read_def spawn_def Let_def)
next
  case (WriteStoredFlag b)
  assume "guarded s"
  with WriteStoredFlag show ?thesis by (simp add: guarded_def passes_in_flight_def)
next
  case (Resume n)
  assume g: "guarded s"
  show ?thesis
  proof (cases "n < length (tasks s)")
    case False
    with g Resume show ?thesis by simp
  next
    case True
    let ?k = "tasks s ! n"
    obtain k' w1 where r: "resume ?k (world s) = (k', w1)" by (cases "resume ?k (world s)")
    note rg = resume_guard [OF r]
    show ?thesis
    proof (cases "is_pass ?k")
      case pass: True
      from g have one: "length (filter is_pass (tasks s)) \<le> 1"
        by (simp add: guarded_def passes_in_flight_def)
      note none = filter_at_most_one [OF one True pass]
      from True pass have "tasks s ! n \<in> set (filter is_pass (tasks s))" by simp
      then have "filter is_pass (tasks s) \<noteq> []" by (metis empty_iff empty_set)
      with g have up: "isSyncing (service (world s))"
        by (simp add: guarded_def passes_in_flight_def)
      show ?thesis
      proof (cases k')
        case None
        with rg pass Resume True r none show ?thesis
          by (simp add: guarded_def passes_in_flight_def)
      next
        case (Some k2)
        with rg pass up Resume True r none show ?thesis
          by (simp add: guarded_def passes_in_flight_def upd_conv_take_nth_drop)
      qed
    next
      case save: False
      with rg obtain "k' = None" "isSyncing (service w1) = isSyncing (service (world s))"
        by (cases k') auto
      with g Resume True r filter_skip_nth [of n "tasks s" is_pass, OF True save] show ?thesis
        by (simp add: guarded_def passes_in_flight_def)
    qed
  qed
qed

lemma schedule_guarded: "guarded s \<Longrightarrow> guarded (schedule acts s)"
  by (induction acts arbitrary: s) (simp_all add: step_guarded)

lemma fresh_sched_guarded: "guarded (fresh_sched online flag r n)"
  by (simp add: guarded_def passes_in_flight_def fresh_sched_def fresh_world_def constructor_def)

lemma sync_call_skips:
  "\<not> isOnline (service w) \<or> isSyncing (service w) \<Longrightarrow>
   sync_call w = (None, emit LogSkippingSync w)"
  by (auto simp add: sync_call_def)

lemma sync_call_starts:
  "isOnline (service w) \<Longrightarrow> \<not> isSyncing (service w) \<Longrightarrow>
   sync_call w = (Some SyncRefresh, set_isSyncing True w)"
  by (simp add: sync_call_def)

lemma step_CallSync_skips:
  assumes "guarded s" "passes_in_flight s \<noteq> [] \<or> \<not> isOnline (service (world s))"
  shows "step CallSync s = s\<lparr>world := emit LogSkippingSync (world s)\<rparr>"
proof -
  from assms have "\<not> isOnline (service (world s)) \<or> isSyncing (service (world s))"
    by (auto simp add: guarded_def)
  then show ?thesis by (simp add: sync_call_skips spawn_def)
qed

lemma step_Online_skips:
  assumes "guarded s" "passes_in_flight s \<noteq> []"
  shows "step Online s = s\<lparr>world := emit LogSkippingSync (set_isOnline True (world s))\<rparr>"
proof -
  from assms have "isSyncing (service (set_isOnline True (world s)))"
    by (simp add: guarded_def set_isOnline_def)
  then show ?thesis by (simp add: sync_call_skips spawn_def)
qed

lemma step_CallSync_starts:
  assumes "guarded s" "passes_in_flight s = []" "isOnline (service (world s))"
  shows "step CallSync s =
           \<lparr>world = set_isSyncing True (world s), tasks = tasks s @ [SyncRefresh]\<rparr>"
    and "passes_in_flight (step CallSync s) = [SyncRefresh]"
proof -
  from assms have "\<not> isSyncing (service (world s))" by (simp add: guarded_def)
  with assms(3) show a: "step CallSync s =
           \<lparr>world = set_isSyncing True (world s), tasks = tasks s @ [SyncRefresh]\<rparr>"
    by (simp add: sync_call_starts spawn_def)
  from assms(2) show "passes_in_flight (step CallSync s) = [SyncRefresh]"
    unfolding a by (simp add: passes_in_flight_def)
qed

subsection \<open>The example schedules\<close>

lemmas sched_defs = fresh_sched_def spawn_def sync_call_def saveTransaction_read_def
  saveTransaction_push_def syncProducts_def set_isSyncing_def stamp_lastSync_def emit_def
  sleep_def

lemma sched_save_overlaps_pass_eval:
  "tasks sched_save_overlaps_pass = []"
  "pending_ids (world sched_save_overlaps_pass) = [''T1'']"
  "stored_ids (world sched_save_overlaps_pass) = [''T1'', ''T2'']"
  "confirmed (world sched_save_overlaps_pass) = [''T1'', ''T2'']"
  "remote_row_ids (world sched_save_overlaps_pass) = {''T1'', ''T2''}"
  by (simp_all add: sched_save_overlaps_pass_def sched_defs eval_defs net_signed_out_first_def
      sale_T1_def sale_T2_def pending_ids_def stored_ids_def confirmed_def map_filter_def
      remote_row_ids_def)

lemma sched_two_saves_overlap_eval:
  "tasks sched_two_saves_overlap = []"
  "pending_ids (world sched_two_saves_overlap) = []"
  "stored_ids (world sched_two_saves_overlap) = [''T1'', ''T2'']"
  "confirmed (world sched_two_saves_overlap) = [''T2'']"
  "remote_row_ids (world sched_two_saves_overlap) = {''T2''}"
  by (simp_all add: sched_two_saves_overlap_def sched_defs eval_defs net_signed_out_first_def
      sale_T1_def sale_T2_def pending_ids_def stored_ids_def confirmed_def map_filter_def
      remote_row_ids_def)

lemma sched_pass_in_flight_eval:
  "passes_in_flight sched_pass_in_flight = [SyncLoad]"
  "isSyncing (service (world sched_pass_in_flight))"
  "trace (world sched_pass_in_flight) = [Request SelectProducts]"
  by (simp_all add: sched_pass_in_flight_def sched_defs eval_defs net_always_def
      passes_in_flight_def)

section \<open>Delivering a transaction twice\<close>

text \<open>Claim C1, evaluated where it fails. The sale \<open>T1\<close> has one line item. One successful
  delivery leaves one item row. In a drain pass whose first write of the item rows is
  applied by the server but reported as failed, the retry sends both writes again: the
  transaction row is overwritten under its key, so there is still one, but the item
  rows carry no key, each gets a newly generated one, and the Remote Store ends with two
  rows for the one line item.\<close>

theorem redelivery_duplicates_items:
  "map payload (remote_items (supabase (snd (upload sale_T1 world_T1_offline)))) =
     map (format_item sale_T1) (items sale_T1) \<and>
   map row_id (remote_transactions (supabase (syncTransactions_private world_T1_lost_answer))) =
     [''T1''] \<and>
   map payload (remote_items (supabase (syncTransactions_private world_T1_lost_answer))) =
     map (format_item sale_T1) (items sale_T1) @ map (format_item sale_T1) (items sale_T1) \<and>
   length (items sale_T1) = 1 \<and>
   length (remote_items (supabase (syncTransactions_private world_T1_lost_answer))) = 2"
  by (simp add: world_T1_lost_answer_eval world_T1_offline_def eval_defs net_lost_at_def
      net_always_def sale_T1_def syncTransactions_private_def retry_loop.simps sleep_def)

section \<open>The pending set along a run\<close>

text \<open>Claim C2, evaluated where it fails. The pending set is not kept equal to the stored
  transactions not yet confirmed. (1) The sale \<open>T1\<close> is saved twice, one call after the
  other: the first push fails and queues \<open>T1\<close>, the second succeeds, and the success path
  of \<^verbatim>\<open>saveTransaction\<close> (lines 295 to 299) does not take the id out of the pending set,
  as the success path of the drain does (line 215): \<open>T1\<close> is confirmed and still
  pending. (2) \<open>T1\<close> is pending and the save of \<open>T2\<close> overlaps a pass that delivers
  \<open>T1\<close>: \<^verbatim>\<open>saveTransaction\<close> writes back the SyncState it read at line 245, pending set
  included, so \<open>T1\<close> is confirmed and pending again. (3) The saves of \<open>T1\<close> and \<open>T2\<close>
  overlap, the push of \<open>T1\<close> fails and that of \<open>T2\<close> succeeds: the same write-back
  drops \<open>T1\<close> from the pending set, so \<open>T1\<close> is stored, not confirmed, not on the Remote
  Store, and not pending. In (2) and (3) every call has returned; a call of
  \<^verbatim>\<open>saveTransaction\<close> that nothing overlaps is its read followed at once by its push.\<close>

theorem pending_set_not_maintained:
  "pending_ids world_T1_saved_twice = [''T1''] \<and>
   stored_ids world_T1_saved_twice = [''T1''] \<and>
   confirmed world_T1_saved_twice = [''T1''] \<and>
   \<not> pending_correct world_T1_saved_twice \<and>
   tasks sched_save_overlaps_pass = [] \<and>
   pending_ids (world sched_save_overlaps_pass) = [''T1''] \<and>
   stored_ids (world sched_save_overlaps_pass) = [''T1'', ''T2''] \<and>
   confirmed (world sched_save_overlaps_pass) = [''T1'', ''T2''] \<and>
   \<not> pending_correct (world sched_save_overlaps_pass) \<and>
   tasks sched_two_saves_overlap = [] \<and>
   pending_ids (world sched_two_saves_overlap) = [] \<and>
   stored_ids (world sched_two_saves_overlap) = [''T1'', ''T2''] \<and>
   confirmed (world sched_two_saves_overlap) = [''T2''] \<and>
   remote_row_ids (world sched_two_saves_overlap) = {''T2''} \<and>
   \<not> pending_correct (world sched_two_saves_overlap)"
  by (simp add: pending_correct_def world_T1_saved_twice_eval sched_save_overlaps_pass_eval
      sched_two_saves_overlap_eval)

section \<open>The retry ceiling\<close>

text \<open>Claim C3. On an engine as the constructor builds it (at most 3 attempts, 5000 ms
  between them, the 5 seconds of the source), take a pending transaction, stored locally,
  for which no delivery can get both writes through. In one drain pass it is attempted
  exactly three times. What the pass logs and requests consists of what it does for the
  transactions before it in the queue, then one block for this transaction, then what
  it does for those after it, and nothing outside the block is about this transaction.
  The block is: attempt 1 with the requests of a delivery (the user is asked for, and if
  one is signed in the transaction row is sent, and the item rows if that write came
  back without error), a wait of 5000 ms, attempt 2 with the requests of a delivery,
  a wait of 5000 ms, attempt 3 with the requests of a delivery, and the line that gives
  up; no wait follows the last attempt. After the pass the id is still in the pending
  set and the record is still stored, unchanged. Other transactions of the same pass may
  succeed or fail.\<close>

theorem retry_ceiling:
  assumes mx: "maxRetries (service w) = 3" and dl: "retryDelay (service w) = 5000"
    and nd: "never_delivered (net w) i"
    and dist: "distinct (pending_ids w)" and pend: "i \<in> set (pending_ids w)"
    and got: "db_getTransaction i (db w) = Some t"
  shows "(\<exists>before after k1 k2 k3.
            events_since w (syncTransactions_private w) =
              before @
              [LogAttempting i 1] @
              delivery_events (user_at (net w)) (outcome_at (net w)) k1 i @
              [LogRetrying i 2, Sleep 5000] @
              [LogAttempting i 2] @
              delivery_events (user_at (net w)) (outcome_at (net w)) k2 i @
              [LogRetrying i 3, Sleep 5000] @
              [LogAttempting i 3] @
              delivery_events (user_at (net w)) (outcome_at (net w)) k3 i @
              [LogFailedAfter i 3] @ after \<and>
            requests (net w) \<le> k1 \<and>
            k2 = k1 + length (delivery_events (user_at (net w)) (outcome_at (net w)) k1 i) \<and>
            k3 = k2 + length (delivery_events (user_at (net w)) (outcome_at (net w)) k2 i) \<and>
            (\<forall>e \<in> set before \<union> set after. event_tid e \<noteq> Some i)) \<and>
         (\<exists>before after.
            filter attempt_or_sleep (events_since w (syncTransactions_private w)) =
              before @ [LogAttempting i 1, Sleep 5000, LogAttempting i 2, Sleep 5000,
                        LogAttempting i 3] @ after \<and>
            attempts_of i before = [] \<and> attempts_of i after = []) \<and>
         attempts_of i (events_since w (syncTransactions_private w)) = [1, 2, 3] \<and>
         i \<in> set (pending_ids (syncTransactions_private w)) \<and>
         db_getTransaction i (db (syncTransactions_private w)) = Some t"
proof -
  let ?get = "\<lambda>j. db_getTransaction j (db w)"
  let ?u = "user_at (net w)"
  let ?ans = "outcome_at (net w)"
  from pend obtain xs ys where ids: "pending_ids w = xs @ i # ys"
    by (meson split_list)
  with dist have nxs: "i \<notin> set xs" and nys: "i \<notin> set ys" by auto
  have tidt: "tid t = i" using got by (rule db_getTransaction_tid)
  have oth_x: "tid t' \<noteq> i" if "Some t' \<in> set (map ?get xs)" for t'
    using that nxs db_getTransaction_tid by fastforce
  have oth_y: "tid t' \<noteq> i" if "Some t' \<in> set (map ?get ys)" for t'
    using that nys db_getTransaction_tid by fastforce
  let ?w1 = "drain_each (map ?get xs) w"
  let ?w2 = "retry_loop t 0 ?w1"
  let ?w3 = "drain_each (map ?get ys) ?w2"
  have pass: "syncTransactions_private w = ?w3"
    using ids got
    by (simp add: syncTransactions_private_def Let_def db_getSyncState_def pending_ids_def
        drain_each_append)
  obtain e1 where e1: "trace ?w1 = trace w @ e1" "\<forall>e \<in> set e1. event_tid e \<noteq> Some i"
    using drain_each_other_events [of "map ?get xs" i w] oth_x by blast
  have p1: "i \<in> set (pending_ids ?w1)"
    by (rule drain_each_other_pending) (use oth_x pend in auto)
  have s1: "service ?w1 = service w" by (rule drain_each_service)
  have n1: "user_at (net ?w1) = ?u" "outcome_at (net ?w1) = ?ans"
    by (rule drain_each_user_at, rule drain_each_outcome_at)
  have k1: "requests (net w) \<le> requests (net ?w1)" by (rule drain_each_requests_mono)
  have nd1: "never_delivered (net ?w1) (tid t)"
    using nd never_delivered_cong [OF n1(2)] tidt by simp
  let ?k1 = "requests (net ?w1)"
  let ?k2 = "?k1 + length (delivery_events ?u ?ans ?k1 i)"
  let ?k3 = "?k2 + length (delivery_events ?u ?ans ?k2 i)"
  let ?block = "[LogAttempting i 1] @ delivery_events ?u ?ans ?k1 i @
      [LogRetrying i 2, Sleep 5000] @
      [LogAttempting i 2] @ delivery_events ?u ?ans ?k2 i @
      [LogRetrying i 3, Sleep 5000] @
      [LogAttempting i 3] @ delivery_events ?u ?ans ?k3 i @ [LogFailedAfter i 3]"
  have e2: "trace ?w2 = trace ?w1 @ ?block"
    using retry_loop_failing_trace [OF nd1, of 0] s1 mx dl tidt n1
    by (simp only: failing_rounds_3 [symmetric]) simp
  have db2: "db ?w2 = db ?w1"
    using retry_loop_all_fail [OF nd1, of 0] by simp
  have p2: "i \<in> set (pending_ids ?w2)" using p1 db2 by (simp add: pending_ids_def)
  obtain e3 where e3: "trace ?w3 = trace ?w2 @ e3" "\<forall>e \<in> set e3. event_tid e \<noteq> Some i"
    using drain_each_other_events [of "map ?get ys" i ?w2] oth_y by blast
  have p3: "i \<in> set (pending_ids ?w3)"
    by (rule drain_each_other_pending) (use oth_y p2 in auto)
  have tr3: "transactions (db ?w3) = transactions (db w)"
    using db2 by (simp add: drain_each_transactions)
  have ev: "events_since w ?w3 = e1 @ ?block @ e3"
    by (rule events_since_append) (simp add: e1 e2 e3)
  have a1: "attempts_of i e1 = []" "attempts_of i e3 = []"
    using e1(2) e3(2) by (simp_all add: attempts_of_none)
  have fb: "filter attempt_or_sleep ?block =
      [LogAttempting i 1, Sleep 5000, LogAttempting i 2, Sleep 5000, LogAttempting i 3]"
    by simp
  have A: "\<exists>before after k1 k2 k3.
            events_since w ?w3 =
              before @
              [LogAttempting i 1] @ delivery_events ?u ?ans k1 i @
              [LogRetrying i 2, Sleep 5000] @
              [LogAttempting i 2] @ delivery_events ?u ?ans k2 i @
              [LogRetrying i 3, Sleep 5000] @
              [LogAttempting i 3] @ delivery_events ?u ?ans k3 i @
              [LogFailedAfter i 3] @ after \<and>
            requests (net w) \<le> k1 \<and>
            k2 = k1 + length (delivery_events ?u ?ans k1 i) \<and>
            k3 = k2 + length (delivery_events ?u ?ans k2 i) \<and>
            (\<forall>e \<in> set before \<union> set after. event_tid e \<noteq> Some i)"
  proof (intro exI conjI)
    show "events_since w ?w3 =
        e1 @ [LogAttempting i 1] @ delivery_events ?u ?ans ?k1 i @
        [LogRetrying i 2, Sleep 5000] @
        [LogAttempting i 2] @ delivery_events ?u ?ans ?k2 i @
        [LogRetrying i 3, Sleep 5000] @
        [LogAttempting i 3] @ delivery_events ?u ?ans ?k3 i @ [LogFailedAfter i 3] @ e3"
      unfolding ev by simp
    show "requests (net w) \<le> ?k1" by (rule k1)
    show "?k2 = ?k1 + length (delivery_events ?u ?ans ?k1 i)" by simp
    show "?k3 = ?k2 + length (delivery_events ?u ?ans ?k2 i)" by simp
    show "\<forall>e \<in> set e1 \<union> set e3. event_tid e \<noteq> Some i" using e1(2) e3(2) by auto
  qed
  have B: "\<exists>before after.
            filter attempt_or_sleep (events_since w ?w3) =
              before @ [LogAttempting i 1, Sleep 5000, LogAttempting i 2, Sleep 5000,
                        LogAttempting i 3] @ after \<and>
            attempts_of i before = [] \<and> attempts_of i after = []"
  proof (intro exI conjI)
    show "filter attempt_or_sleep (events_since w ?w3) =
        filter attempt_or_sleep e1 @
        [LogAttempting i 1, Sleep 5000, LogAttempting i 2, Sleep 5000, LogAttempting i 3] @
        filter attempt_or_sleep e3"
      unfolding ev filter_append fb by simp
    show "attempts_of i (filter attempt_or_sleep e1) = []"
      "attempts_of i (filter attempt_or_sleep e3) = []"
      by (simp_all add: attempts_of_filter a1)
  qed
  have "attempts_of i ?block = attempts_of i (filter attempt_or_sleep ?block)"
    by (simp only: attempts_of_filter)
  also have "\<dots> = [1, 2, 3]"
    unfolding fb by (simp add: attempts_of_def map_filter_def)
  finally have C: "attempts_of i (events_since w ?w3) = [1, 2, 3]"
    unfolding ev by (simp only: attempts_of_append a1) simp
  have D: "db_getTransaction i (db ?w3) = Some t"
    using db_getTransaction_cong [OF tr3] got by simp
  from A B C D p3 show ?thesis unfolding pass by blast
qed

text \<open>Two pending sales, the server refusing the transaction row of \<open>T1\<close> only: the pass
  sends that row three times, waits twice, gives up on \<open>T1\<close> and delivers \<open>T2\<close>.\<close>

theorem retry_ceiling_witness:
  "maxRetries (service world_two_pending) = 3 \<and>
   retryDelay (service world_two_pending) = 5000 \<and>
   never_delivered (net world_two_pending) ''T1'' \<and>
   distinct (pending_ids world_two_pending) \<and>
   ''T1'' \<in> set (pending_ids world_two_pending) \<and>
   db_getTransaction ''T1'' (db world_two_pending) = Some sale_T1 \<and>
   events_since world_two_pending (syncTransactions_private world_two_pending) =
     [LogAttempting ''T1'' 1, Request GetUser, Request (UpsertTransaction ''T1''),
      LogRetrying ''T1'' 2, Sleep 5000,
      LogAttempting ''T1'' 2, Request GetUser, Request (UpsertTransaction ''T1''),
      LogRetrying ''T1'' 3, Sleep 5000,
      LogAttempting ''T1'' 3, Request GetUser, Request (UpsertTransaction ''T1''),
      LogFailedAfter ''T1'' 3,
      LogAttempting ''T2'' 1, Request GetUser, Request (UpsertTransaction ''T2''),
      Request (UpsertItems ''T2''), LogSynced ''T2''] \<and>
   attempts_of ''T1'' (events_since world_two_pending (syncTransactions_private world_two_pending))
     = [1, 2, 3] \<and>
   ''T1'' \<in> set (pending_ids (syncTransactions_private world_two_pending)) \<and>
   db_getTransaction ''T1'' (db (syncTransactions_private world_two_pending)) = Some sale_T1"
  using retry_ceiling [OF world_two_pending_facts(1,2,5,7,8,10)] world_two_pending_facts
    world_two_pending_pass_events
  by blast

section \<open>Full refresh of the product cache\<close>

text \<open>Claim C4, as amended. Whatever the local product cache held, a forced refresh
  (\<^verbatim>\<open>syncProducts(true)\<close>) whose fetch succeeds does one of two things. If it fetched at
  least one product (their ids distinct, as the primary key of the remote table makes
  them), the cache afterwards equals exactly the fetched products: what the remote set
  lacks is gone, what is new in it is there. If it fetched no product, it returns without
  an error and leaves the whole Local Store, the cache included, as it was.\<close>

theorem full_refresh_replaces_cache:
  assumes "outcome_at (net w) (requests (net w)) SelectProducts = Applied"
  shows "(remote_products (supabase w) \<noteq> [] \<and>
          distinct (map pid (remote_products (supabase w))) \<longrightarrow>
            fst (syncProducts True w) = Inr () \<and>
            products (db (snd (syncProducts True w))) = remote_products (supabase w) \<and>
            set (products (db (snd (syncProducts True w)))) = set (remote_products (supabase w))) \<and>
         (remote_products (supabase w) = [] \<longrightarrow>
            fst (syncProducts True w) = Inr () \<and>
            db (snd (syncProducts True w)) = db w)"
proof -
  have full: "products (db (snd (syncProducts True w))) = remote_products (supabase w)"
    if ne: "remote_products (supabase w) \<noteq> []"
      and d: "distinct (map pid (remote_products (supabase w)))"
  proof -
    have "products (db (snd (syncProducts True w))) =
        fold (put pid) (remote_products (supabase w)) []"
      using assms ne
      by (simp add: syncProducts_def select_products_def answer_def db_saveProducts_def
          db_clearProducts_def products_fold_saveProduct)
    also have "\<dots> = remote_products (supabase w)"
      using fold_put_distinct [of pid "[]" "remote_products (supabase w)"] d by simp
    finally show ?thesis .
  qed
  have empty: "db (snd (syncProducts True w)) = db w" if "remote_products (supabase w) = []"
    using assms that
    by (simp add: syncProducts_def select_products_def answer_def tick_def emit_def)
  have res: "fst (syncProducts True w) = Inr ()"
    using assms by (simp add: syncProducts_result)
  from full empty res show ?thesis by simp
qed

text \<open>The example of the specification: cache \<open>{A, B}\<close>, remote \<open>{B, C}\<close>, cache afterwards
  \<open>{B, C}\<close>. And an empty remote table: the cache \<open>{A, B}\<close> is left alone.\<close>

theorem full_refresh_replaces_cache_witness:
  "products (db world_cache_AB_remote_BC) = [product_A, product_B] \<and>
   outcome_at (net world_cache_AB_remote_BC) (requests (net world_cache_AB_remote_BC))
     SelectProducts = Applied \<and>
   remote_products (supabase world_cache_AB_remote_BC) \<noteq> [] \<and>
   distinct (map pid (remote_products (supabase world_cache_AB_remote_BC))) \<and>
   fst (syncProducts True world_cache_AB_remote_BC) = Inr () \<and>
   products (db (snd (syncProducts True world_cache_AB_remote_BC))) = [product_B, product_C] \<and>
   outcome_at (net world_stale_cache) (requests (net world_stale_cache)) SelectProducts = Applied \<and>
   remote_products (supabase world_stale_cache) = [] \<and>
   db (snd (syncProducts True world_stale_cache)) = db world_stale_cache"
proof -
  have d: "distinct (map pid (remote_products (supabase world_cache_AB_remote_BC)))"
    and n: "remote_products (supabase world_cache_AB_remote_BC) \<noteq> []"
    by (simp_all add: world_cache_AB_remote_BC_facts product_B_def product_C_def)
  from full_refresh_replaces_cache [OF world_cache_AB_remote_BC_facts(3)]
    full_refresh_replaces_cache [OF world_stale_cache_facts(3)] d n
  show ?thesis by (simp add: world_cache_AB_remote_BC_facts world_stale_cache_facts)
qed

text \<open>Claim C4 as stated fails when the fetch succeeds with no product: \<^verbatim>\<open>syncProducts\<close>
  returns before it clears the cache, which keeps \<open>A\<close> and \<open>B\<close> although the remote set is
  empty.\<close>

theorem empty_fetch_keeps_stale_cache:
  "outcome_at (net world_stale_cache) (requests (net world_stale_cache)) SelectProducts = Applied \<and>
   fst (syncProducts True world_stale_cache) = Inr () \<and>
   remote_products (supabase world_stale_cache) = [] \<and>
   products (db (snd (syncProducts True world_stale_cache))) = [product_A, product_B] \<and>
   set (products (db (snd (syncProducts True world_stale_cache)))) \<noteq>
     set (remote_products (supabase world_stale_cache))"
  by (simp add: world_stale_cache_def fresh_world_def remote_with_def net_always_def
      db_saveProducts_def db_saveProduct_def product_A_def product_B_def
      syncProducts_def select_products_def answer_def tick_def emit_def)

section \<open>Durability of a saved transaction\<close>

text \<open>Claim C5. Whatever \<^verbatim>\<open>saveTransaction\<close> returns, success or any error, and whatever
  the stored online flag and the network answer, the transaction can be read back from
  the Local Store under its id afterwards: the local save is the first thing done.\<close>

theorem saveTransaction_durable:
  "db_getTransaction (tid t) (db (snd (saveTransaction t w))) = Some t"
proof -
  let ?w0 = "w\<lparr>db := db_saveTransaction t (db w)\<rparr>"
  have tr: "transactions (db (snd (saveTransaction t w))) = put tid t (transactions (db w))"
  proof (cases "upload t ?w0")
    case (Pair r w1)
    then have "db w1 = db ?w0" using upload_db [of t ?w0] by simp
    with Pair show ?thesis
      by (cases r) (simp_all add: saveTransaction_def Let_def db_getSyncState_def
          db_updateSyncState_def db_saveTransaction_def emit_def)
  qed
  show ?thesis unfolding db_getTransaction_def tr by (rule find_put)
qed

text \<open>A refused write, an offline save and a successful push: \<open>T1\<close> is stored each
  time.\<close>

theorem saveTransaction_durable_witness:
  "fst (saveTransaction sale_T1 (fresh_world True True (remote_with []) (net_always Refused)))
     = Inl TransactionError \<and>
   db_getTransaction ''T1''
     (db (snd (saveTransaction sale_T1 (fresh_world True True (remote_with []) (net_always Refused)))))
     = Some sale_T1 \<and>
   fst (saveTransaction sale_T1 (fresh_world False False (remote_with []) (net_always Applied)))
     = Inl OfflineSavedLocally \<and>
   db_getTransaction ''T1''
     (db (snd (saveTransaction sale_T1 (fresh_world False False (remote_with []) (net_always Applied)))))
     = Some sale_T1 \<and>
   fst (saveTransaction sale_T1 (fresh_world True True (remote_with []) (net_always Applied)))
     = Inr () \<and>
   db_getTransaction ''T1''
     (db (snd (saveTransaction sale_T1 (fresh_world True True (remote_with []) (net_always Applied)))))
     = Some sale_T1"
proof -
  have id: "tid sale_T1 = ''T1''" by (simp add: sale_T1_def)
  have r1: "fst (saveTransaction sale_T1 (fresh_world True True (remote_with []) (net_always Refused)))
     = Inl TransactionError"
    by (simp add: saveTransaction_def Let_def db_getSyncState_def db_saveTransaction_def
        fresh_world_def net_always_def split_beta upload_result split: sum.split)
  have r2: "fst (saveTransaction sale_T1 (fresh_world False False (remote_with []) (net_always Applied)))
     = Inl OfflineSavedLocally"
    by (simp add: saveTransaction_def Let_def db_getSyncState_def db_saveTransaction_def
        fresh_world_def)
  have r3: "fst (saveTransaction sale_T1 (fresh_world True True (remote_with []) (net_always Applied)))
     = Inr ()"
    by (simp add: saveTransaction_def Let_def db_getSyncState_def db_saveTransaction_def
        fresh_world_def net_always_def split_beta upload_result split: sum.split)
  show ?thesis
    using saveTransaction_durable [of sale_T1 "fresh_world True True (remote_with []) (net_always Refused)"]
      saveTransaction_durable [of sale_T1 "fresh_world False False (remote_with []) (net_always Applied)"]
      saveTransaction_durable [of sale_T1 "fresh_world True True (remote_with []) (net_always Applied)"]
    unfolding id using r1 r2 r3 by simp
qed

section \<open>A delivery is an ordered pair of writes\<close>

text \<open>Claim C6. In one delivery (the statements shared by the direct push of
  \<^verbatim>\<open>saveTransaction\<close> and by each attempt of the drain pass) the item rows are requested
  exactly when a user is signed in and the write of the transaction row came back
  without error, and after it; the delivery succeeds exactly when both writes came back
  without error; and it records nothing in the Local Store. At the two places it is
  used: \<^verbatim>\<open>saveTransaction\<close> succeeds only if its delivery does, and otherwise leaves the
  id pending and unconfirmed; a retry loop none of whose deliveries gets both writes
  through leaves the Local Store as it was.\<close>

theorem delivery_is_ordered_pair:
  "events_since w (snd (upload t w)) =
     Request GetUser #
     (if user_at (net w) (requests (net w)) = None then []
      else Request (UpsertTransaction (tid t)) #
           (if outcome_at (net w) (Suc (requests (net w))) (UpsertTransaction (tid t)) = Applied
            then [Request (UpsertItems (tid t))] else [])) \<and>
   (fst (upload t w) = Inr () \<longleftrightarrow>
      user_at (net w) (requests (net w)) \<noteq> None \<and>
      outcome_at (net w) (Suc (requests (net w))) (UpsertTransaction (tid t)) = Applied \<and>
      outcome_at (net w) (Suc (Suc (requests (net w)))) (UpsertItems (tid t)) = Applied) \<and>
   db (snd (upload t w)) = db w \<and>
   fst (saveTransaction t w) =
     (if isOnline_stored (syncState (db w))
      then fst (upload t (w\<lparr>db := db_saveTransaction t (db w)\<rparr>))
      else Inl OfflineSavedLocally) \<and>
   (fst (saveTransaction t w) \<noteq> Inr () \<longrightarrow>
      tid t \<in> set (pending_ids (snd (saveTransaction t w))) \<and>
      confirmed (snd (saveTransaction t w)) = confirmed w) \<and>
   (never_delivered (net w) (tid t) \<longrightarrow> db (retry_loop t 0 w) = db w)"
proof -
  have a: "events_since w (snd (upload t w)) =
     Request GetUser #
     (if user_at (net w) (requests (net w)) = None then []
      else Request (UpsertTransaction (tid t)) #
           (if outcome_at (net w) (Suc (requests (net w))) (UpsertTransaction (tid t)) = Applied
            then [Request (UpsertItems (tid t))] else []))"
    by (rule events_since_append) (simp add: upload_trace Let_def)
  have b: "fst (upload t w) = Inr () \<longleftrightarrow>
      user_at (net w) (requests (net w)) \<noteq> None \<and>
      outcome_at (net w) (Suc (requests (net w))) (UpsertTransaction (tid t)) = Applied \<and>
      outcome_at (net w) (Suc (Suc (requests (net w)))) (UpsertItems (tid t)) = Applied"
    by (simp add: upload_result Let_def)
  show ?thesis
    using a b upload_db [of t w] saveTransaction_result [of t w]
      saveTransaction_failure_pending [of t w] retry_loop_all_fail [of w t 0]
    by blast
qed

text \<open>Item rows refused after the transaction row was applied: all three requests are
  made, the delivery fails, \<open>T1\<close> is pending. Transaction row refused: the item rows are
  never requested.\<close>

theorem delivery_is_ordered_pair_witness:
  "events_since (fresh_world True True (remote_with []) net_items_refused)
     (snd (upload sale_T1 (fresh_world True True (remote_with []) net_items_refused))) =
     [Request GetUser, Request (UpsertTransaction ''T1''), Request (UpsertItems ''T1'')] \<and>
   fst (upload sale_T1 (fresh_world True True (remote_with []) net_items_refused)) \<noteq> Inr () \<and>
   events_since (fresh_world True True (remote_with []) (net_always Refused))
     (snd (upload sale_T1 (fresh_world True True (remote_with []) (net_always Refused)))) =
     [Request GetUser, Request (UpsertTransaction ''T1'')] \<and>
   fst (saveTransaction sale_T1 (fresh_world True True (remote_with []) net_items_refused)) \<noteq> Inr () \<and>
   ''T1'' \<in> set (pending_ids
     (snd (saveTransaction sale_T1 (fresh_world True True (remote_with []) net_items_refused)))) \<and>
   never_delivered (net (fresh_world True True (remote_with []) net_items_refused)) ''T1'' \<and>
   db (retry_loop sale_T1 0 (fresh_world True True (remote_with []) net_items_refused)) =
     db (fresh_world True True (remote_with []) net_items_refused)"
proof -
  let ?w = "fresh_world True True (remote_with []) net_items_refused"
  let ?v = "fresh_world True True (remote_with []) (net_always Refused)"
  have id: "tid sale_T1 = ''T1''" by (simp add: sale_T1_def)
  have w: "user_at (net ?w) (requests (net ?w)) \<noteq> None"
    "outcome_at (net ?w) (Suc (requests (net ?w))) (UpsertTransaction ''T1'') = Applied"
    "outcome_at (net ?w) (Suc (Suc (requests (net ?w)))) (UpsertItems ''T1'') \<noteq> Applied"
    "isOnline_stored (syncState (db ?w))"
    "user_at (net (?w\<lparr>db := db_saveTransaction sale_T1 (db ?w)\<rparr>))
       (requests (net (?w\<lparr>db := db_saveTransaction sale_T1 (db ?w)\<rparr>))) \<noteq> None"
    "outcome_at (net (?w\<lparr>db := db_saveTransaction sale_T1 (db ?w)\<rparr>))
       (Suc (Suc (requests (net (?w\<lparr>db := db_saveTransaction sale_T1 (db ?w)\<rparr>)))))
       (UpsertItems ''T1'') \<noteq> Applied"
    by (simp_all add: fresh_world_def net_items_refused_def)
  have v: "user_at (net ?v) (requests (net ?v)) \<noteq> None"
    "outcome_at (net ?v) (Suc (requests (net ?v))) (UpsertTransaction ''T1'') \<noteq> Applied"
    by (simp_all add: fresh_world_def net_always_def)
  have nd: "never_delivered (net ?w) ''T1''"
    by (simp add: never_delivered_def fresh_world_def net_items_refused_def)
  note W = delivery_is_ordered_pair [of ?w sale_T1, unfolded id]
  note V = delivery_is_ordered_pair [of ?v sale_T1, unfolded id]
  note W0 = delivery_is_ordered_pair [of "?w\<lparr>db := db_saveTransaction sale_T1 (db ?w)\<rparr>" sale_T1,
      unfolded id]
  have 1: "events_since ?w (snd (upload sale_T1 ?w)) =
     [Request GetUser, Request (UpsertTransaction ''T1''), Request (UpsertItems ''T1'')]"
    using W w by simp
  have 2: "fst (upload sale_T1 ?w) \<noteq> Inr ()" using W w by simp
  have 3: "events_since ?v (snd (upload sale_T1 ?v)) =
     [Request GetUser, Request (UpsertTransaction ''T1'')]"
    using V v by simp
  have 4: "fst (saveTransaction sale_T1 ?w) \<noteq> Inr ()" using W W0 w by simp
  have 5: "''T1'' \<in> set (pending_ids (snd (saveTransaction sale_T1 ?w)))" using W 4 by blast
  have 6: "db (retry_loop sale_T1 0 ?w) = db ?w" using W nd by blast
  from 1 2 3 4 5 6 nd show ?thesis by blast
qed

section \<open>The guard of a reconciliation pass\<close>

text \<open>Claim C7. Called while the engine is offline or while its guard \<^verbatim>\<open>isSyncing\<close> is up,
  \<^verbatim>\<open>sync\<close> returns at once without an error and does nothing but log that it skips: no
  request, no change to either store or to the engine's fields, no task left behind.
  Otherwise it takes the guard before its first \<^verbatim>\<open>await\<close>, and \<^verbatim>\<open>sync\<close> as a whole is that
  first step followed by the resumptions of its task, at whose end the guard is as it was
  found. Now let calls overlap: start a terminal and let any sequence of calls of the
  three public operations, connectivity events, rewrites of the stored online flag and
  resumptions of suspended calls happen, in any order. In the state reached at most one
  pass is in flight, and the guard is up exactly if one is; if one is in flight or the
  engine is offline, a call of \<^verbatim>\<open>sync\<close> changes nothing but the log and starts no second
  pass, and so does the call the online listener makes while a pass is in flight; if
  none is in flight and the engine is online, the call starts the one pass.\<close>

theorem sync_guard:
  "(\<not> isOnline (service w) \<or> isSyncing (service w) \<longrightarrow>
      sync w = (Inr (), emit LogSkippingSync w) \<and>
      sync_call w = (None, emit LogSkippingSync w)) \<and>
   (isOnline (service w) \<and> \<not> isSyncing (service w) \<longrightarrow>
      sync_call w = (Some SyncRefresh, set_isSyncing True w)) \<and>
   sync w = (Inr (), case sync_call w of (None, w1) \<Rightarrow> w1 | (Some k, w1) \<Rightarrow> finish k w1) \<and>
   isSyncing (service (snd (sync w))) = isSyncing (service w) \<and>
   (let s = schedule acts (fresh_sched online flag r n)
    in length (passes_in_flight s) \<le> 1 \<and>
       (isSyncing (service (world s)) \<longleftrightarrow> passes_in_flight s \<noteq> []) \<and>
       (passes_in_flight s \<noteq> [] \<or> \<not> isOnline (service (world s)) \<longrightarrow>
          step CallSync s = s\<lparr>world := emit LogSkippingSync (world s)\<rparr>) \<and>
       (passes_in_flight s \<noteq> [] \<longrightarrow>
          step Online s = s\<lparr>world := emit LogSkippingSync (set_isOnline True (world s))\<rparr>) \<and>
       (passes_in_flight s = [] \<and> isOnline (service (world s)) \<longrightarrow>
          step CallSync s =
            \<lparr>world = set_isSyncing True (world s), tasks = tasks s @ [SyncRefresh]\<rparr> \<and>
          passes_in_flight (step CallSync s) = [SyncRefresh]))"
proof -
  let ?s = "schedule acts (fresh_sched online flag r n)"
  have g: "guarded ?s" by (rule schedule_guarded [OF fresh_sched_guarded])
  have a: "\<not> isOnline (service w) \<or> isSyncing (service w) \<longrightarrow>
      sync w = (Inr (), emit LogSkippingSync w) \<and>
      sync_call w = (None, emit LogSkippingSync w)"
    using sync_skips [of w] sync_call_skips [of w] by blast
  have b: "isOnline (service w) \<and> \<not> isSyncing (service w) \<longrightarrow>
      sync_call w = (Some SyncRefresh, set_isSyncing True w)"
    using sync_call_starts [of w] by blast
  have c: "sync w = (Inr (), case sync_call w of (None, w1) \<Rightarrow> w1 | (Some k, w1) \<Rightarrow> finish k w1)"
    by (rule sync_as_task)
  have d: "isSyncing (service (snd (sync w))) = isSyncing (service w)"
    by (rule sync_releases)
  have e: "length (passes_in_flight ?s) \<le> 1"
    "isSyncing (service (world ?s)) \<longleftrightarrow> passes_in_flight ?s \<noteq> []"
    using g by (simp_all add: guarded_def)
  have f: "passes_in_flight ?s \<noteq> [] \<or> \<not> isOnline (service (world ?s)) \<longrightarrow>
          step CallSync ?s = ?s\<lparr>world := emit LogSkippingSync (world ?s)\<rparr>"
    using step_CallSync_skips [OF g] by blast
  have h: "passes_in_flight ?s \<noteq> [] \<longrightarrow>
          step Online ?s = ?s\<lparr>world := emit LogSkippingSync (set_isOnline True (world ?s))\<rparr>"
    using step_Online_skips [OF g] by blast
  have i: "passes_in_flight ?s = [] \<and> isOnline (service (world ?s)) \<longrightarrow>
          step CallSync ?s =
            \<lparr>world = set_isSyncing True (world ?s), tasks = tasks ?s @ [SyncRefresh]\<rparr> \<and>
          passes_in_flight (step CallSync ?s) = [SyncRefresh]"
    using step_CallSync_starts [OF g] by blast
  from a b c d e f h i show ?thesis unfolding Let_def by blast
qed

text \<open>A call on an offline terminal; a call on a fresh online terminal, which starts the
  pass; and, with that pass suspended after its product refresh, a second call and an
  online event, which are skipped and leave the one pass in flight.\<close>

theorem sync_guard_witness:
  "sync (fresh_world False True (remote_with []) (net_always Applied)) =
     (Inr (), emit LogSkippingSync (fresh_world False True (remote_with []) (net_always Applied))) \<and>
   sync_call (fresh_world True True (remote_with []) (net_always Applied)) =
     (Some SyncRefresh,
      set_isSyncing True (fresh_world True True (remote_with []) (net_always Applied))) \<and>
   passes_in_flight sched_pass_in_flight = [SyncLoad] \<and>
   isSyncing (service (world sched_pass_in_flight)) \<and>
   step CallSync sched_pass_in_flight =
     sched_pass_in_flight\<lparr>world := emit LogSkippingSync (world sched_pass_in_flight)\<rparr> \<and>
   step Online sched_pass_in_flight =
     sched_pass_in_flight
       \<lparr>world := emit LogSkippingSync (set_isOnline True (world sched_pass_in_flight))\<rparr> \<and>
   passes_in_flight (step CallSync sched_pass_in_flight) = [SyncLoad] \<and>
   passes_in_flight
     (step CallSync (fresh_sched True True (remote_with []) (net_always Applied))) =
     [SyncRefresh]"
proof -
  let ?off = "fresh_world False True (remote_with []) (net_always Applied)"
  let ?on = "fresh_world True True (remote_with []) (net_always Applied)"
  have off: "\<not> isOnline (service ?off)" by (simp add: fresh_world_def constructor_def)
  have on: "isOnline (service ?on) \<and> \<not> isSyncing (service ?on)"
    by (simp add: fresh_world_def constructor_def)
  have p: "passes_in_flight sched_pass_in_flight \<noteq> []"
    by (simp add: sched_pass_in_flight_eval)
  note g = sync_guard [of ?off "[CallSync, Resume 0]" True True "remote_with []" "net_always Applied",
      unfolded Let_def, folded sched_pass_in_flight_def]
  note g' = sync_guard [of ?on "[CallSync, Resume 0]" True True "remote_with []" "net_always Applied",
      unfolded Let_def, folded sched_pass_in_flight_def]
  from g off have 1: "sync ?off = (Inr (), emit LogSkippingSync ?off)" by blast
  from g' on have 2: "sync_call ?on = (Some SyncRefresh, set_isSyncing True ?on)" by blast
  from g p have 3: "step CallSync sched_pass_in_flight =
     sched_pass_in_flight\<lparr>world := emit LogSkippingSync (world sched_pass_in_flight)\<rparr>"
    by blast
  from g p have 4: "step Online sched_pass_in_flight =
     sched_pass_in_flight
       \<lparr>world := emit LogSkippingSync (set_isOnline True (world sched_pass_in_flight))\<rparr>"
    by blast
  have 5: "passes_in_flight (step CallSync sched_pass_in_flight) = [SyncLoad]"
    unfolding 3 by (simp add: passes_in_flight_def sched_pass_in_flight_eval [unfolded passes_in_flight_def])
  have q: "passes_in_flight (fresh_sched True True (remote_with []) (net_always Applied)) = [] \<and>
      isOnline (service (world (fresh_sched True True (remote_with []) (net_always Applied))))"
    by (simp add: passes_in_flight_def fresh_sched_def fresh_world_def constructor_def)
  note g0 = sync_guard [of ?on "[]" True True "remote_with []" "net_always Applied",
      unfolded Let_def schedule.simps]
  from g0 q have 6: "passes_in_flight
     (step CallSync (fresh_sched True True (remote_with []) (net_always Applied))) =
     [SyncRefresh]"
    by blast
  from 1 2 3 4 5 6 sched_pass_in_flight_eval show ?thesis by simp
qed

section \<open>One failing transaction does not stop the pass\<close>

text \<open>Claim C8. \<^verbatim>\<open>sync\<close> never raises an error, whatever happens inside the pass. In a
  drain pass every pending id that has a stored transaction gets a first attempt,
  whatever the outcome of the transactions before it in the queue, retries exhausted
  included: the attempt is logged, the requests of a delivery of that transaction follow
  it, and if a user is signed in and the server does not refuse the transaction row, the
  Remote Store holds a row for the id after the pass. So it is in a whole \<^verbatim>\<open>sync\<close> that gets
  through its guard and its product fetch.\<close>

theorem drain_continues_sync_succeeds:
  "fst (sync w) = Inr () \<and>
   (0 < maxRetries (service w) \<longrightarrow>
      (\<forall>i \<in> set (pending_ids w). db_getTransaction i (db w) \<noteq> None \<longrightarrow>
         first_attempt_made w (syncTransactions_private w) i)) \<and>
   (0 < maxRetries (service w) \<and> isOnline (service w) \<and> \<not> isSyncing (service w) \<and>
    outcome_at (net w) (requests (net w)) SelectProducts = Applied \<longrightarrow>
      (\<forall>i \<in> set (pending_ids w). db_getTransaction i (db w) \<noteq> None \<longrightarrow>
         first_attempt_made w (snd (sync w)) i))"
  using sync_never_throws [of w] syncTransactions_private_first_delivery [of w]
    sync_first_delivery [of w]
  by blast

text \<open>\<open>T1\<close>, first in the queue, exhausts its retries; \<open>T2\<close> behind it is attempted all
  the same and reaches the Remote Store, \<^verbatim>\<open>sync\<close> returns without error and \<open>T1\<close> is still
  pending.\<close>

theorem drain_continues_sync_succeeds_witness:
  "0 < maxRetries (service world_two_pending) \<and> isOnline (service world_two_pending) \<and>
   \<not> isSyncing (service world_two_pending) \<and>
   outcome_at (net world_two_pending) (requests (net world_two_pending)) SelectProducts = Applied \<and>
   ''T2'' \<in> set (pending_ids world_two_pending) \<and>
   db_getTransaction ''T2'' (db world_two_pending) \<noteq> None \<and>
   fst (sync world_two_pending) = Inr () \<and>
   first_attempt_made world_two_pending (snd (sync world_two_pending)) ''T2'' \<and>
   ''T2'' \<in> remote_row_ids (snd (sync world_two_pending)) \<and>
   ''T1'' \<in> set (pending_ids (snd (sync world_two_pending)))"
proof -
  have m: "0 < maxRetries (service world_two_pending)"
    by (simp add: world_two_pending_facts)
  have always: "user_at (net world_two_pending) k \<noteq> None \<and>
      outcome_at (net world_two_pending) (Suc k) (UpsertTransaction ''T2'') \<noteq> Refused" for k
    by (simp add: world_two_pending_eval net_T1_refused_def)
  from drain_continues_sync_succeeds [of world_two_pending] m world_two_pending_facts
  have made: "first_attempt_made world_two_pending (snd (sync world_two_pending)) ''T2''"
    and ok: "fst (sync world_two_pending) = Inr ()"
    by blast+
  from made always have row: "''T2'' \<in> remote_row_ids (snd (sync world_two_pending))"
    by blast
  from m made ok row world_two_pending_facts sync_keeps_pending [OF world_two_pending_facts(5,8)]
  show ?thesis by blast
qed

section \<open>Sync status of one transaction\<close>

text \<open>Claim C9. For every transaction id and every state, \<^verbatim>\<open>getTransactionSyncStatus\<close>
  answers \<open>pending\<close> exactly when the id is in the stored pending set and \<open>synced\<close>
  exactly when it is not; the third value of its result type, \<open>error\<close>, is never
  returned.\<close>

theorem getTransactionSyncStatus_pending_or_synced:
  "(getTransactionSyncStatus i w = pending \<longleftrightarrow> i \<in> set (pending_ids w)) \<and>
   (getTransactionSyncStatus i w = synced \<longleftrightarrow> i \<notin> set (pending_ids w)) \<and>
   getTransactionSyncStatus i w \<noteq> error"
  by (simp add: getTransactionSyncStatus_def pending_ids_def db_getSyncState_def)

text \<open>At the terminal that saved \<open>T1\<close> offline: \<open>T1\<close> is pending, an unknown id counts
  as synced.\<close>

theorem getTransactionSyncStatus_pending_or_synced_witness:
  "getTransactionSyncStatus ''T1'' world_T1_offline = pending \<and>
   getTransactionSyncStatus ''T2'' world_T1_offline = synced \<and>
   getTransactionSyncStatus ''T1'' world_T1_offline \<noteq> error"
  using getTransactionSyncStatus_pending_or_synced [of "''T1''" world_T1_offline]
    getTransactionSyncStatus_pending_or_synced [of "''T2''" world_T1_offline]
  by (simp add: world_T1_offline_pending)

section \<open>What decides the direct push\<close>

text \<open>Claim C10. Whether \<^verbatim>\<open>saveTransaction\<close> tries the direct push depends on the online flag
  of the stored SyncState record alone. Changing the engine's in-memory \<^verbatim>\<open>isOnline\<close> changes
  neither the result nor anything the call does; with the stored flag on, the first thing
  after the local save is the request for the current user, with it off nothing is
  requested and the sale is only queued. Neither connectivity listener writes the stored
  flag: the online listener (which runs a whole \<^verbatim>\<open>sync\<close>) and the offline listener leave
  it as it was.\<close>

theorem push_decided_by_stored_flag:
  "saveTransaction t (set_isOnline b w) =
     (fst (saveTransaction t w), set_isOnline b (snd (saveTransaction t w))) \<and>
   (isOnline_stored (syncState (db w)) \<longrightarrow>
      take 1 (events_since w (snd (saveTransaction t w))) = [Request GetUser]) \<and>
   (\<not> isOnline_stored (syncState (db w)) \<longrightarrow>
      events_since w (snd (saveTransaction t w)) = [LogSavedOffline (tid t)] \<and>
      net (snd (saveTransaction t w)) = net w \<and>
      supabase (snd (saveTransaction t w)) = supabase w) \<and>
   isOnline_stored (syncState (db (on_online w))) = isOnline_stored (syncState (db w)) \<and>
   isOnline_stored (syncState (db (on_offline w))) = isOnline_stored (syncState (db w))"
proof -
  let ?w0 = "w\<lparr>db := db_saveTransaction t (db w)\<rparr>"
  have w0: "set_isOnline b w\<lparr>db := db_saveTransaction t (db (set_isOnline b w))\<rparr> = set_isOnline b ?w0"
    by (simp add: set_isOnline_def)
  obtain r w1 where up: "upload t ?w0 = (r, w1)" by (cases "upload t ?w0")
  then have up': "upload t (set_isOnline b ?w0) = (r, set_isOnline b w1)"
    by (simp add: upload_set_isOnline)
  have flag: "isOnline_stored (db_getSyncState (db (set_isOnline b ?w0))) =
      isOnline_stored (db_getSyncState (db ?w0))"
    by (simp add: set_isOnline_def)
  have a: "saveTransaction t (set_isOnline b w) =
     (fst (saveTransaction t w), set_isOnline b (snd (saveTransaction t w)))"
  proof (cases "isOnline_stored (db_getSyncState (db ?w0))")
    case True
    have l: "saveTransaction t (set_isOnline b w) =
        (case (r, set_isOnline b w1) of
           (Inr _, w1) \<Rightarrow>
             (let w2 = emit (LogSynced (tid t)) w1
              in (Inr (),
                  w2\<lparr>db := db_updateSyncState
                    (db_getSyncState (db (set_isOnline b ?w0))\<lparr>lastSync := Some (clock w2)\<rparr>) (db w2)\<rparr>))
         | (Inl e, w1) \<Rightarrow>
             (Inl e,
              emit (LogAddedToPending (tid t))
                (w1\<lparr>db := db_addPendingTransaction (tid t) (db w1)\<rparr>)))"
      unfolding saveTransaction_def Let_def w0 up' using True flag by simp
    have r: "saveTransaction t w =
        (case (r, w1) of
           (Inr _, w1) \<Rightarrow>
             (let w2 = emit (LogSynced (tid t)) w1
              in (Inr (),
                  w2\<lparr>db := db_updateSyncState
                    (db_getSyncState (db ?w0)\<lparr>lastSync := Some (clock w2)\<rparr>) (db w2)\<rparr>))
         | (Inl e, w1) \<Rightarrow>
             (Inl e,
              emit (LogAddedToPending (tid t))
                (w1\<lparr>db := db_addPendingTransaction (tid t) (db w1)\<rparr>)))"
      unfolding saveTransaction_def Let_def up using True by simp
    show ?thesis unfolding l r
      by (cases r) (simp_all add: set_isOnline_def emit_def Let_def)
  next
    case False
    then show ?thesis unfolding saveTransaction_def Let_def w0 using flag
      by (simp add: set_isOnline_def emit_def)
  qed
  have b: "take 1 (events_since w (snd (saveTransaction t w))) = [Request GetUser]"
    if "isOnline_stored (syncState (db w))"
  proof -
    obtain rest where "trace w1 = trace w @ Request GetUser # rest"
      using upload_trace [of t ?w0] up by (simp add: Let_def)
    with up that have "\<exists>rest'. trace (snd (saveTransaction t w)) = trace w @ Request GetUser # rest'"
      by (cases r) (simp_all add: saveTransaction_def Let_def db_getSyncState_def
          db_saveTransaction_def emit_def)
    then obtain rest' where "trace (snd (saveTransaction t w)) = trace w @ Request GetUser # rest'"
      by blast
    then show ?thesis by (simp add: events_since_def)
  qed
  have c: "events_since w (snd (saveTransaction t w)) = [LogSavedOffline (tid t)] \<and>
      net (snd (saveTransaction t w)) = net w \<and>
      supabase (snd (saveTransaction t w)) = supabase w"
    if "\<not> isOnline_stored (syncState (db w))"
    using that by (simp add: saveTransaction_def Let_def db_getSyncState_def
        db_saveTransaction_def emit_def events_since_def)
  have d: "isOnline_stored (syncState (db (on_online w))) = isOnline_stored (syncState (db w))"
    using sync_stored_flag [of "set_isOnline True w"] by (simp add: on_online_def set_isOnline_def)
  have e: "isOnline_stored (syncState (db (on_offline w))) = isOnline_stored (syncState (db w))"
    by (simp add: on_offline_def set_isOnline_def)
  from a b c d e show ?thesis by blast
qed

text \<open>Monitor online but stored flag off: queued without a request. Monitor offline
  but stored flag on: the push starts.\<close>

theorem push_decided_by_stored_flag_witness:
  "fst (saveTransaction sale_T1 (fresh_world True False (remote_with []) (net_always Applied)))
     = Inl OfflineSavedLocally \<and>
   events_since (fresh_world True False (remote_with []) (net_always Applied))
     (snd (saveTransaction sale_T1 (fresh_world True False (remote_with []) (net_always Applied))))
     = [LogSavedOffline ''T1''] \<and>
   take 1 (events_since (fresh_world False True (remote_with []) (net_always Applied))
     (snd (saveTransaction sale_T1 (fresh_world False True (remote_with []) (net_always Applied)))))
     = [Request GetUser] \<and>
   saveTransaction sale_T1 (set_isOnline True (fresh_world False True (remote_with []) (net_always Applied)))
     = (fst (saveTransaction sale_T1 (fresh_world False True (remote_with []) (net_always Applied))),
        set_isOnline True
          (snd (saveTransaction sale_T1 (fresh_world False True (remote_with []) (net_always Applied)))))"
proof -
  have off: "\<not> isOnline_stored (syncState (db (fresh_world True False (remote_with []) (net_always Applied))))"
    and on: "isOnline_stored (syncState (db (fresh_world False True (remote_with []) (net_always Applied))))"
    by (simp_all add: fresh_world_def)
  have id: "tid sale_T1 = ''T1''" by (simp add: sale_T1_def)
  have res: "fst (saveTransaction sale_T1 (fresh_world True False (remote_with []) (net_always Applied)))
     = Inl OfflineSavedLocally"
    by (simp add: saveTransaction_def Let_def db_getSyncState_def db_saveTransaction_def
        fresh_world_def)
  show ?thesis
    using push_decided_by_stored_flag
        [of sale_T1 True "fresh_world True False (remote_with []) (net_always Applied)"]
      push_decided_by_stored_flag
        [of sale_T1 True "fresh_world False True (remote_with []) (net_always Applied)"]
      off on res
    unfolding id by blast
qed

end
